theory Spec2Isabelle
  imports
    Complex_Main
    "HOL-Library.Char_ord"
    "HOL-Library.List_Lexorder"
    "HOL-Library.Multiset"
    "HOL-Library.Word"
begin

section \<open>The memcached client (pkg/chunk/cache/memcached\_client.go)\<close>

subsection \<open>Library functions the client calls\<close>

text \<open>
  Go's \<^verbatim>\<open>strings.Split(s, sep)\<close> for a one-byte separator: the substrings of \<open>s\<close> between
  the separators. A string without separator, the empty string included, gives a slice of
  length one whose only element is the string itself.
\<close>

function Split :: "string \<Rightarrow> char \<Rightarrow> string list" where
  "Split s sep =
     (case dropWhile (\<lambda>c. c \<noteq> sep) s of
        [] \<Rightarrow> [s]
      | _ # rest \<Rightarrow> takeWhile (\<lambda>c. c \<noteq> sep) s # Split rest sep)"
  by pat_completeness auto
termination
proof (relation "measure (\<lambda>(s, sep). length s)")
  show "wf (measure (\<lambda>(s, sep). length s))" by simp
next
  fix s :: string and sep x rest
  assume "dropWhile (\<lambda>c. c \<noteq> sep) s = x # rest"
  then have "length (x # rest) \<le> length s"
    by (metis length_dropWhile_le)
  then show "((rest, sep), (s, sep)) \<in> measure (\<lambda>(s, sep). length s)" by simp
qed

declare Split.simps [simp del]

text \<open>
  \<^verbatim>\<open>%d\<close> of \<^verbatim>\<open>fmt.Sprintf\<close> on an unsigned number: its decimal digits.
\<close>

fun decimal :: "nat \<Rightarrow> string" where
  "decimal n =
     (if n < 10 then [''0123456789'' ! n]
      else decimal (n div 10) @ [''0123456789'' ! (n mod 10)])"

declare decimal.simps [simp del]

text \<open>
  \<^verbatim>\<open>sort.Strings\<close> sorts a slice in increasing order of Go's \<open><\<close> on strings, the
  lexicographic order of the bytes. Equal strings cannot be told apart, so the result is
  the one sorted arrangement of the slice, whatever algorithm produces it.
\<close>

definition sort_Strings :: "string list \<Rightarrow> string list" where
  "sort_Strings servers = sort servers"

subsection \<open>Data\<close>

text \<open>Go \<^verbatim>\<open>error\<close> values are kept by their message.\<close>

type_synonym error = string

text \<open>\<^verbatim>\<open>net.SRV\<close>, one record of an SRV answer.\<close>

record SRV =
  Target :: string
  Port :: "16 word"
  Priority :: "16 word"
  Weight :: "16 word"

record MemcachedClientConfig =
  Host :: string
  Service :: string
  Addresses :: string
  Timeout :: int
  MaxIdleConns :: int
  UpdateInterval :: int
  ConsistentHash :: bool

text \<open>
  What the client does to its collaborators, in the order it does it: the calls to the DNS
  provider, to \<^verbatim>\<open>net.LookupSRV\<close>, to the gauge, to the selector's \<^verbatim>\<open>SetServers\<close> and to
  the logger (level and key-value pairs).
\<close>

datatype level = Error | Warn

datatype call =
    Resolve "string list"
  | LookupSRV string string string
  | GaugeSet nat
  | SetServers "string list"
  | Log level "(string \<times> string) list"

text \<open>
  The collaborators' answers during one resolution cycle. \<open>provider_Addresses\<close> is what
  \<^verbatim>\<open>c.provider.Addresses()\<close> returns after \<^verbatim>\<open>c.provider.Resolve(ctx, addresses)\<close>
  (the provider reports no error of its own); \<open>net_LookupSRV\<close> is the answer of
  \<^verbatim>\<open>net.LookupSRV(service, proto, name)\<close>; \<open>SetServers_err\<close> is the error, if any,
  with which the selector refuses a server list.
\<close>

record world =
  provider_Addresses :: "string list \<Rightarrow> string list"
  net_LookupSRV :: "string \<Rightarrow> string \<Rightarrow> string \<Rightarrow> error + SRV list"
  SetServers_err :: "string list \<Rightarrow> error option"

text \<open>
  The background goroutine and the caller of \<^verbatim>\<open>Stop\<close>, by how far each has got. A
  goroutine has crashed, and a call of \<^verbatim>\<open>Stop\<close> has panicked, when it ended in a panic.
\<close>

datatype goroutine = NotStarted | Running | Exited | Crashed

datatype stopper = NotCalled | Waiting | Returned | Panicked

text \<open>
  \<^verbatim>\<open>memcachedClient\<close>. \<open>serverList\<close> is the server list the selector holds: the
  arguments of the last \<^verbatim>\<open>SetServers\<close> call it accepted (a selector replaces its list
  as a whole, and a call that returns an error replaces nothing). \<open>quit\<close> tells whether
  the channel is closed, \<open>wait\<close> is the WaitGroup's counter, \<open>numServers\<close> is the value
  of the gauge (a gauge reads 0 until it is first set; \<^verbatim>\<open>float64(len(servers))\<close> is exact
  for every length a slice can have in practice, so the value is kept as a number).
  \<open>calls\<close> records the calls made so far; \<open>loop\<close> and \<open>stop\<close> are the two threads of
  control.
\<close>

record memcachedClient =
  consistent :: bool
  client_Timeout :: int
  client_MaxIdleConns :: int
  serverList :: "string list"
  hostname :: string
  service :: string
  addresses :: "string list"
  quit :: bool
  wait :: nat
  gauge_name :: string
  numServers :: nat
  calls :: "call list"
  loop :: goroutine
  stop :: stopper

subsection \<open>updateMemcacheServers\<close>

definition called :: "call \<Rightarrow> memcachedClient \<Rightarrow> memcachedClient" where
  "called e c = c\<lparr>calls := calls c @ [e]\<rparr>"

text \<open>\<^verbatim>\<open>fmt.Sprintf("%s:%d", srv.Target, srv.Port)\<close>\<close>

definition srv_address :: "SRV \<Rightarrow> string" where
  "srv_address srv = Target srv @ '':'' @ decimal (unat (Port srv))"

text \<open>
  The first half of \<^verbatim>\<open>updateMemcacheServers\<close>, up to the comment before the sort: the
  servers resolved, or the error of the lookup with which the function returns early.
\<close>

definition resolve_servers ::
  "world \<Rightarrow> memcachedClient \<Rightarrow> (error + string list) \<times> memcachedClient" where
  "resolve_servers w c =
     (if length (addresses c) > 0 then
        (Inr (provider_Addresses w (addresses c)), called (Resolve (addresses c)) c)
      else
        (case net_LookupSRV w (service c) ''tcp'' (hostname c) of
           Inl err \<Rightarrow> (Inl err, called (LookupSRV (service c) ''tcp'' (hostname c)) c)
         | Inr addrs \<Rightarrow>
             (Inr (map srv_address addrs),
              called (LookupSRV (service c) ''tcp'' (hostname c)) c)))"

text \<open>\<^verbatim>\<open>c.serverList.SetServers(servers...)\<close>\<close>

definition selector_SetServers ::
  "world \<Rightarrow> string list \<Rightarrow> memcachedClient \<Rightarrow> error option \<times> memcachedClient" where
  "selector_SetServers w servers c =
     (case SetServers_err w servers of
        Some err \<Rightarrow> (Some err, called (SetServers servers) c)
      | None \<Rightarrow> (None, called (SetServers servers) (c\<lparr>serverList := servers\<rparr>)))"

definition updateMemcacheServers ::
  "world \<Rightarrow> memcachedClient \<Rightarrow> error option \<times> memcachedClient" where
  "updateMemcacheServers w c =
     (case resolve_servers w c of
        (Inl err, c1) \<Rightarrow> (Some err, c1)
      | (Inr resolved, c1) \<Rightarrow>
          (let servers = sort_Strings resolved;
               c2 = called (GaugeSet (length servers)) (c1\<lparr>numServers := length servers\<rparr>)
           in selector_SetServers w servers c2))"

subsection \<open>NewMemcachedClient, updateLoop, Stop\<close>

text \<open>The struct literal of \<^verbatim>\<open>NewMemcachedClient\<close>, before anything has run.\<close>

definition newClient :: "MemcachedClientConfig \<Rightarrow> string \<Rightarrow> memcachedClient" where
  "newClient cfg name =
     \<lparr> consistent = ConsistentHash cfg,
       client_Timeout = Timeout cfg,
       client_MaxIdleConns = MaxIdleConns cfg,
       serverList = [],
       hostname = Host cfg,
       service = Service cfg,
       addresses = Split (Addresses cfg) (CHR '',''),
       quit = False,
       wait = 0,
       gauge_name = name,
       numServers = 0,
       calls = [],
       loop = NotStarted,
       stop = NotCalled \<rparr>"

definition NewMemcachedClient ::
  "world \<Rightarrow> MemcachedClientConfig \<Rightarrow> string \<Rightarrow> memcachedClient" where
  "NewMemcachedClient w cfg name =
     (case updateMemcacheServers w (newClient cfg name) of
        (err, c) \<Rightarrow>
          (let c1 = (case err of
                       Some e \<Rightarrow>
                         called (Log Error
                           [(''msg'', ''error setting memcache servers to host''),
                            (''host'', Host cfg), (''err'', e)]) c
                     | None \<Rightarrow> c);
               c2 = c1\<lparr>wait := wait c1 + 1\<rparr>
           in c2\<lparr>loop := Running\<rparr>))"

text \<open>The body of the \<^verbatim>\<open>case <-ticker.C\<close> branch of \<^verbatim>\<open>updateLoop\<close>.\<close>

definition tick :: "world \<Rightarrow> memcachedClient \<Rightarrow> memcachedClient" where
  "tick w c =
     (case updateMemcacheServers w c of
        (Some err, c1) \<Rightarrow>
          called (Log Warn [(''msg'', ''error updating memcache servers''), (''err'', err)]) c1
      | (None, c1) \<Rightarrow> c1)"

text \<open>
  The \<^verbatim>\<open>case <-c.quit\<close> branch: the ticker is stopped, the function returns and the
  deferred \<^verbatim>\<open>c.wait.Done()\<close> runs, which panics if the counter is 0 already.
\<close>

definition loop_return :: "memcachedClient \<Rightarrow> memcachedClient" where
  "loop_return c =
     (if wait c = 0 then c\<lparr>loop := Crashed\<rparr> else c\<lparr>wait := wait c - 1, loop := Exited\<rparr>)"

text \<open>
  \<^verbatim>\<open>Stop\<close> is two statements. \<^verbatim>\<open>close(c.quit)\<close> panics on a channel that is already
  closed; \<^verbatim>\<open>c.wait.Wait()\<close> returns once the counter is zero and blocks until then.
\<close>

definition Stop_close :: "memcachedClient \<Rightarrow> memcachedClient" where
  "Stop_close c = (if quit c then c\<lparr>stop := Panicked\<rparr> else c\<lparr>quit := True, stop := Waiting\<rparr>)"

definition Stop_wait :: "memcachedClient \<Rightarrow> memcachedClient option" where
  "Stop_wait c = (if wait c = 0 then Some (c\<lparr>stop := Returned\<rparr>) else None)"

text \<open>
  One step of the client with its background goroutine and one caller of \<^verbatim>\<open>Stop\<close>,
  interleaved. While the goroutine runs, \<^verbatim>\<open>select\<close> may take the ticker's branch
  whenever the ticker has fired, also when \<open>quit\<close> is closed already (Go chooses among the
  ready branches at random); it may take the quit branch only once \<open>quit\<close> is closed.
\<close>

inductive step :: "memcachedClient \<Rightarrow> memcachedClient \<Rightarrow> bool" where
  step_tick: "loop c = Running \<Longrightarrow> step c (tick w c)"
| step_quit: "loop c = Running \<Longrightarrow> quit c \<Longrightarrow> step c (loop_return c)"
| step_close: "stop c = NotCalled \<Longrightarrow> step c (Stop_close c)"
| step_wait: "stop c = Waiting \<Longrightarrow> Stop_wait c = Some c' \<Longrightarrow> step c c'"

inductive reachable :: "memcachedClient \<Rightarrow> memcachedClient \<Rightarrow> bool" where
  reach_refl: "reachable c c"
| reach_step: "reachable c c1 \<Longrightarrow> step c1 c2 \<Longrightarrow> reachable c c2"

subsection \<open>Example configurations and collaborators\<close>

text \<open>
  The configuration the flags give by default, with a hostname set: no address list, so
  discovery is meant to go through the SRV records of the service. Durations are in
  nanoseconds.
\<close>

definition default_cfg :: MemcachedClientConfig where
  "default_cfg =
     \<lparr> Host = ''memcached.cortex.svc.cluster.local'', Service = ''memcached'',
       Addresses = '''', Timeout = 100000000, MaxIdleConns = 16,
       UpdateInterval = 60000000000, ConsistentHash = False \<rparr>"

text \<open>A configuration with three static addresses, out of order.\<close>

definition static_cfg :: MemcachedClientConfig where
  "static_cfg =
     \<lparr> Host = '''', Service = ''memcached'',
       Addresses = ''b:1,a:1,c:1'', Timeout = 100000000, MaxIdleConns = 16,
       UpdateInterval = 60000000000, ConsistentHash = False \<rparr>"

text \<open>
  Collaborators: a provider that hands the addresses back as they are, last first; a DNS
  that answers every SRV query with two records, with no record, or with an error; a
  selector that accepts every list, or refuses every list.
\<close>

definition two_records :: "SRV list" where
  "two_records =
     [\<lparr>Target = ''memcached-1.memcached.'', Port = 11211, Priority = 20, Weight = 5\<rparr>,
      \<lparr>Target = ''memcached-0.memcached.'', Port = 11211, Priority = 10, Weight = 7\<rparr>]"

definition dns_up :: world where
  "dns_up =
     \<lparr> provider_Addresses = rev,
       net_LookupSRV = (\<lambda>service proto name. Inr two_records),
       SetServers_err = (\<lambda>servers. None) \<rparr>"

definition dns_down :: world where
  "dns_down =
     \<lparr> provider_Addresses = rev,
       net_LookupSRV = (\<lambda>service proto name. Inl ''no such host''),
       SetServers_err = (\<lambda>servers. None) \<rparr>"

definition dns_empty :: world where
  "dns_empty =
     \<lparr> provider_Addresses = rev,
       net_LookupSRV = (\<lambda>service proto name. Inr []),
       SetServers_err = (\<lambda>servers. None) \<rparr>"

definition selector_refuses :: world where
  "selector_refuses =
     \<lparr> provider_Addresses = rev,
       net_LookupSRV = (\<lambda>service proto name. Inr two_records),
       SetServers_err = (\<lambda>servers. Some ''missing port in address'') \<rparr>"

text \<open>
  A client whose address list is empty, as a test in the package can build it. It has one
  server installed and its loop running.
\<close>

definition srv_client :: memcachedClient where
  "srv_client =
     (newClient default_cfg ''chunks'')
       \<lparr> serverList := [''memcached-0.memcached.:11211''], addresses := [],
         wait := 1, numServers := 1, loop := Running \<rparr>"

text \<open>
  A run of a client to the return of \<^verbatim>\<open>Stop\<close>: constructed, one tick, \<^verbatim>\<open>Stop\<close> closes
  \<open>quit\<close>, \<^verbatim>\<open>select\<close> still takes one more tick, then the quit branch, and \<^verbatim>\<open>Wait\<close>
  returns.
\<close>

definition stopped_client :: memcachedClient where
  "stopped_client =
     (loop_return
        (tick dns_empty
           (Stop_close
              (tick dns_up (NewMemcachedClient dns_up static_cfg ''chunks'')))))
       \<lparr>stop := Returned\<rparr>"

text \<open>
  What holds of the WaitGroup in every state of a run: the counter is 1 while the goroutine
  runs and 0 once it has returned, and \<^verbatim>\<open>Stop\<close> has returned only if the goroutine has.
\<close>

definition wait_inv :: "memcachedClient \<Rightarrow> bool" where
  "wait_inv c =
     (((loop c = Running \<and> wait c = 1) \<or> (loop c = Exited \<and> wait c = 0))
      \<and> (stop c = Returned \<longrightarrow> loop c = Exited))"

text \<open>The calls a client has made since it was in an earlier state.\<close>

definition new_calls :: "memcachedClient \<Rightarrow> memcachedClient \<Rightarrow> call list" where
  "new_calls c c' = drop (length (calls c)) (calls c')"

fun is_resolution :: "call \<Rightarrow> bool" where
  "is_resolution (Resolve a) = True"
| "is_resolution (LookupSRV s p h) = True"
| "is_resolution _ = False"

fun is_GaugeSet :: "call \<Rightarrow> bool" where
  "is_GaugeSet (GaugeSet n) = True"
| "is_GaugeSet _ = False"

fun is_SetServers :: "call \<Rightarrow> bool" where
  "is_SetServers (SetServers servers) = True"
| "is_SetServers _ = False"

fun is_Log :: "call \<Rightarrow> bool" where
  "is_Log (Log l kvs) = True"
| "is_Log _ = False"

section \<open>Rule configurations (pkg/configs/configs.go)\<close>

subsection \<open>Data\<close>

text \<open>
  A Go \<^verbatim>\<open>map[string]T\<close>: \<open>None\<close> is the nil map, \<open>Some kvs\<close> a map holding the pairs
  \<open>kvs\<close>, listed in the order in which a \<^verbatim>\<open>range\<close> over the map visits them. Go fixes no
  such order, so what is proved is proved for every list. A map holds a key once:
  \<open>wf_map\<close>.
\<close>

type_synonym 'v gomap = "(string \<times> 'v) list option"

definition entries :: "'v gomap \<Rightarrow> (string \<times> 'v) list" where
  "entries m = (case m of None \<Rightarrow> [] | Some kvs \<Rightarrow> kvs)"

definition wf_map :: "'v gomap \<Rightarrow> bool" where
  "wf_map m = distinct (map fst (entries m))"

text \<open>\<^verbatim>\<open>len(m)\<close> and the two-valued index expression \<^verbatim>\<open>v, ok := m[k]\<close>.\<close>

definition len :: "'v gomap \<Rightarrow> nat" where
  "len m = length (entries m)"

definition index :: "'v gomap \<Rightarrow> string \<Rightarrow> 'v option" where
  "index m k = map_of (entries m) k"

type_synonym RulesConfig = "string gomap"

text \<open>
  \<^verbatim>\<open>time.Time\<close>, by what \<^verbatim>\<open>IsZero\<close> reads of it: the seconds since January 1 of year 1,
  00:00:00 UTC, the nanoseconds within the second, and the location, which \<^verbatim>\<open>IsZero\<close>
  ignores.
\<close>

record Time =
  sec :: int
  nsec :: int
  location :: string

definition IsZero :: "Time \<Rightarrow> bool" where
  "IsZero t = (sec t = 0 \<and> nsec t = 0)"

record Config =
  RulesFiles :: RulesConfig
  AlertmanagerConfig :: string

record View =
  ID :: int
  Config :: Config
  DeletedAt :: Time

record VersionedRulesConfig =
  ID :: int
  Config :: RulesConfig
  DeletedAt :: Time

subsection \<open>GetVersionedRulesConfig, IsDeleted\<close>

definition GetVersionedRulesConfig :: "View \<Rightarrow> VersionedRulesConfig option" where
  "GetVersionedRulesConfig v =
     (if RulesFiles (View.Config v) = None then None
      else Some \<lparr> ID = View.ID v,
                  Config = RulesFiles (View.Config v),
                  DeletedAt = View.DeletedAt v \<rparr>)"

definition IsDeleted :: "VersionedRulesConfig \<Rightarrow> bool" where
  "IsDeleted vr = (\<not> IsZero (DeletedAt vr))"

subsection \<open>Equal\<close>

text \<open>The \<^verbatim>\<open>for k, v1 := range c\<close> loop of \<^verbatim>\<open>Equal\<close>, over the pairs still to visit.\<close>

fun Equal_range :: "(string \<times> string) list \<Rightarrow> RulesConfig \<Rightarrow> bool" where
  "Equal_range [] other = True"
| "Equal_range ((k, v1) # rest) other =
     (case index other k of
        None \<Rightarrow> False
      | Some v2 \<Rightarrow> if v1 \<noteq> v2 then False else Equal_range rest other)"

definition Equal :: "RulesConfig \<Rightarrow> RulesConfig \<Rightarrow> bool" where
  "Equal c other = (if len other \<noteq> len c then False else Equal_range (entries c) other)"

subsection \<open>Parse\<close>

text \<open>\<^verbatim>\<open>rulefmt.Rule\<close> and \<^verbatim>\<open>rulefmt.RuleGroup\<close>; durations are in nanoseconds.\<close>

record Rule =
  Record :: string
  Alert :: string
  Expr :: string
  For :: int
  Labels :: "string gomap"
  Annotations :: "string gomap"

record RuleGroup =
  Name :: string
  Interval :: int
  Rules :: "Rule list"

text \<open>
  The two implementations of \<^verbatim>\<open>rules.Rule\<close> that \<^verbatim>\<open>Parse\<close> builds, by the arguments
  of \<^verbatim>\<open>rules.NewAlertingRule\<close> (name, expression, hold duration, labels, annotations, and
  the key-value pairs added to the logger) and of \<^verbatim>\<open>rules.NewRecordingRule\<close> (name,
  expression, labels). \<open>'e\<close> is \<^verbatim>\<open>promql.Expr\<close>, \<open>'l\<close> is \<^verbatim>\<open>labels.Labels\<close>.
\<close>

datatype ('e, 'l) rules_Rule =
    AlertingRule string 'e int 'l 'l "(string \<times> string) list"
  | RecordingRule string 'e 'l

text \<open>
  Prometheus, as \<^verbatim>\<open>Parse\<close> uses it. \<^verbatim>\<open>rulefmt.Parse\<close> returns the groups of a rule file
  and a slice of errors (the groups are only read when the slice is empty);
  \<^verbatim>\<open>promql.ParseExpr\<close> returns an expression or an error; \<^verbatim>\<open>labels.FromMap\<close> turns a map
  into a label set.
\<close>

record ('e, 'l) prometheus =
  rulefmt_Parse :: "string \<Rightarrow> RuleGroup list \<times> error list"
  promql_ParseExpr :: "string \<Rightarrow> error + 'e"
  labels_FromMap :: "string gomap \<Rightarrow> 'l"

text \<open>
  The loop over \<^verbatim>\<open>rg.Rules\<close>, with the slice \<open>rls\<close> built so far. An error of
  \<^verbatim>\<open>promql.ParseExpr\<close> ends the whole of \<^verbatim>\<open>Parse\<close>.
\<close>

fun Parse_rules ::
  "('e, 'l) prometheus \<Rightarrow> Rule list \<Rightarrow> ('e, 'l) rules_Rule list
   \<Rightarrow> error + ('e, 'l) rules_Rule list" where
  "Parse_rules P [] rls = Inr rls"
| "Parse_rules P (rl # rest) rls =
     (case promql_ParseExpr P (Expr rl) of
        Inl err \<Rightarrow> Inl err
      | Inr expr \<Rightarrow>
          if Alert rl \<noteq> '''' then
            Parse_rules P rest
              (rls @ [AlertingRule (Alert rl) expr (For rl)
                        (labels_FromMap P (Labels rl)) (labels_FromMap P (Annotations rl))
                        [(''alert'', Alert rl)]])
          else
            Parse_rules P rest
              (rls @ [RecordingRule (Record rl) expr (labels_FromMap P (Labels rl))]))"

text \<open>The loop over \<^verbatim>\<open>rgs.Groups\<close> of the file \<open>fn\<close>, with the map \<open>groups\<close> built so far.\<close>

fun Parse_groups ::
  "('e, 'l) prometheus \<Rightarrow> string \<Rightarrow> RuleGroup list
   \<Rightarrow> (string \<rightharpoonup> ('e, 'l) rules_Rule list)
   \<Rightarrow> error + (string \<rightharpoonup> ('e, 'l) rules_Rule list)" where
  "Parse_groups P fn [] groups = Inr groups"
| "Parse_groups P fn (rg # rest) groups =
     (case Parse_rules P (Rules rg) [] of
        Inl err \<Rightarrow> Inl err
      | Inr rls \<Rightarrow> Parse_groups P fn rest (groups(Name rg @ '';'' @ fn \<mapsto> rls)))"

text \<open>The loop over the files, \<^verbatim>\<open>for fn, content := range c\<close>.\<close>

fun Parse_files ::
  "('e, 'l) prometheus \<Rightarrow> (string \<times> string) list
   \<Rightarrow> (string \<rightharpoonup> ('e, 'l) rules_Rule list)
   \<Rightarrow> error + (string \<rightharpoonup> ('e, 'l) rules_Rule list)" where
  "Parse_files P [] groups = Inr groups"
| "Parse_files P ((fn, content) # rest) groups =
     (case rulefmt_Parse P content of
        (rgs, errs) \<Rightarrow>
          if length errs > 0 then Inl (''error parsing '' @ fn @ '': '' @ hd errs)
          else
            (case Parse_groups P fn rgs groups of
               Inl err \<Rightarrow> Inl err
             | Inr groups' \<Rightarrow> Parse_files P rest groups'))"

text \<open>
  \<^verbatim>\<open>Parse\<close> returns a map and an error; \<^verbatim>\<open>return nil, err\<close> is \<open>(None, Some err)\<close> and
  \<^verbatim>\<open>return groups, nil\<close> is \<open>(Some groups, None)\<close>.
\<close>

definition Parse ::
  "('e, 'l) prometheus \<Rightarrow> RulesConfig
   \<Rightarrow> (string \<rightharpoonup> ('e, 'l) rules_Rule list) option \<times> error option" where
  "Parse P c =
     (case Parse_files P (entries c) Map.empty of
        Inl err \<Rightarrow> (None, Some err)
      | Inr groups \<Rightarrow> (Some groups, None))"

subsection \<open>Failing files, group keys, examples\<close>

text \<open>
  A rule file fails when \<^verbatim>\<open>rulefmt.Parse\<close> reports an error for it, or when the
  expression of one of its rules fails \<^verbatim>\<open>promql.ParseExpr\<close>.
\<close>

definition file_fails :: "('e, 'l) prometheus \<Rightarrow> string \<Rightarrow> bool" where
  "file_fails P content =
     (snd (rulefmt_Parse P content) \<noteq> []
      \<or> (\<exists>rg \<in> set (fst (rulefmt_Parse P content)).
            \<exists>rl \<in> set (Rules rg). isl (promql_ParseExpr P (Expr rl))))"

text \<open>The keys of the groups of some files: group name, semicolon, file name.\<close>

definition group_keys :: "('e, 'l) prometheus \<Rightarrow> (string \<times> string) list \<Rightarrow> string set" where
  "group_keys P files =
     {Name rg @ '';'' @ fn | fn content rg.
        (fn, content) \<in> set files \<and> rg \<in> set (fst (rulefmt_Parse P content))}"

text \<open>
  A stand-in for Prometheus: the file \<open>''bad''\<close> is no rule file, every other file holds one
  group \<open>g\<close> with one recording rule \<open>r\<close> whose expression is the file's content; the only
  expression that parses is \<open>''up''\<close>.
\<close>

definition toy_prometheus :: "(string, (string \<times> string) list) prometheus" where
  "toy_prometheus =
     \<lparr> rulefmt_Parse = (\<lambda>content.
         if content = ''bad'' then ([], [''yaml: unmarshal errors''])
         else ([\<lparr> Name = ''g'', Interval = 0,
                   Rules = [\<lparr> Record = ''r'', Alert = '''', Expr = content, For = 0,
                              Labels = None, Annotations = None \<rparr>] \<rparr>], [])),
       promql_ParseExpr = (\<lambda>e. if e = ''up'' then Inr e else Inl ''parse error''),
       labels_FromMap = entries \<rparr>"

definition deleted_view :: View where
  "deleted_view =
     \<lparr> View.ID = 7,
       View.Config = \<lparr> RulesFiles = Some [(''a.rules'', ''up'')], AlertmanagerConfig = '''' \<rparr>,
       View.DeletedAt = \<lparr> sec = 63713260800, nsec = 0, location = ''UTC'' \<rparr> \<rparr>"

section \<open>The consistent selector's bucket function\<close>

text \<open>
  Modelled from the spec: the consistent selector, which \<^verbatim>\<open>NewMemcachedClient\<close> picks when
  \<^verbatim>\<open>ConsistentHash\<close> is set, and its bucket function are not among the sources. The spec
  says that it ``uses a jump-consistent-hash function: given hash(key) as a 64-bit value
  and n = server count, deterministically computes an integer bucket in [0, n)''. The
  definitions of this section are that function as it was published (Lamping and Veach,
  ``A fast, minimal memory, consistent hash algorithm''), with a 64-bit key, a signed
  bucket count and a 32-bit signed result, and with its floating-point arithmetic carried
  out in IEEE binary64, rounding to nearest, ties to even.

  \<open>ilog2 n\<close> is the position of the highest bit of \<open>n \<ge> 1\<close>.
\<close>

function ilog2 :: "int \<Rightarrow> nat" where
  "ilog2 n = (if n < 2 then 0 else Suc (ilog2 (n div 2)))"
  by pat_completeness auto
termination
  by (relation "measure nat") auto

declare ilog2.simps [simp del]

text \<open>
  Modelled from the spec: rounding to the nearest integer, a tie going to the even one.
\<close>

definition round_half_even :: "rat \<Rightarrow> int" where
  "round_half_even x =
     (let f = \<lfloor>x\<rfloor>; r = x - of_int f
      in if r < 1 / 2 then f else if 1 / 2 < r then f + 1 else if even f then f else f + 1)"

text \<open>
  Modelled from the spec: the binary64 number nearest to \<open>x\<close>, for \<open>1 \<le> x\<close> below the
  overflow threshold, which is where the bucket function rounds. Between \<open>2 ^ e\<close> and
  \<open>2 ^ (e + 1)\<close> the binary64 numbers are the multiples of \<open>2 ^ e / 2 ^ 52\<close>.
\<close>

definition float64 :: "rat \<Rightarrow> rat" where
  "float64 x =
     (let ulp = 2 ^ ilog2 \<lfloor>x\<rfloor> / 2 ^ 52
      in of_int (round_half_even (x / ulp)) * ulp)"

text \<open>
  Modelled from the spec: the conversion of a non-negative floating-point number to a
  64-bit signed integer truncates; a number that does not fit has no defined result.
\<close>

definition int64 :: "rat \<Rightarrow> int option" where
  "int64 x = (if x < 2 ^ 63 then Some \<lfloor>x\<rfloor> else None)"

text \<open>Modelled from the spec: the conversion of an integer to 32 bits, signed.\<close>

definition int32 :: "int \<Rightarrow> int" where
  "int32 b = sint (word_of_int b :: 32 word)"

text \<open>
  Modelled from the spec: the next jump,
  \<^verbatim>\<open>j = int64(float64(b+1) * (float64(int64(1)<<31) / float64((key>>33)+1)))\<close>.
\<close>

definition next_jump :: "64 word \<Rightarrow> int \<Rightarrow> int option" where
  "next_jump key b =
     int64 (float64 (float64 (of_int (b + 1)) *
       float64 (float64 (2 ^ 31) / float64 (of_int (uint (drop_bit 33 key) + 1)))))"

text \<open>
  Modelled from the spec: the loop
  \<^verbatim>\<open>for j < numBuckets { b = j; key = key*2862933555777941757 + 1; j = ... }\<close>
  from the state \<open>(key, b, j)\<close>, and its result \<open>b\<close>. The result is \<open>None\<close> if the loop does
  not end or a conversion has no defined result.
\<close>

partial_function (option) jump_loop :: "64 word \<Rightarrow> int \<Rightarrow> int \<Rightarrow> int \<Rightarrow> int option" where
  "jump_loop key b j numBuckets =
     (if j < numBuckets then
        (let b' = j;
             key' = key * 2862933555777941757 + 1
         in case next_jump key' b' of
              None \<Rightarrow> None
            | Some j' \<Rightarrow> jump_loop key' b' j' numBuckets)
      else Some b)"

declare jump_loop.simps [code]

text \<open>
  Modelled from the spec: the bucket of a 64-bit key among \<open>numBuckets\<close> buckets; the loop
  starts from \<open>b = -1\<close>, \<open>j = 0\<close>.
\<close>

definition jumpHash :: "64 word \<Rightarrow> int \<Rightarrow> int option" where
  "jumpHash key numBuckets = map_option int32 (jump_loop key (- 1) 0 numBuckets)"

section \<open>Properties of the memcached client\<close>

subsection \<open>Evaluating the library functions\<close>

lemma Split_not_Nil: "Split s sep \<noteq> []"
  by (subst Split.simps) (simp split: list.split)

lemma Split_Nil: "Split [] sep = [[]]"
  by (subst Split.simps) simp

lemma Split_Cons:
  "Split (c # cs) sep =
     (if c = sep then [] # Split cs sep
      else (case Split cs sep of w # ws \<Rightarrow> (c # w) # ws | [] \<Rightarrow> []))"
proof (cases "c = sep")
  case True
  then show ?thesis by (subst Split.simps) simp
next
  case False
  show ?thesis
  proof (cases "dropWhile (\<lambda>c. c \<noteq> sep) cs")
    case Nil
    have "Split (c # cs) sep = [c # cs]"
      using False by (subst Split.simps) (simp add: Nil del: dropWhile_eq_Nil_conv)
    moreover have "Split cs sep = [cs]"
      by (subst Split.simps) (simp add: Nil del: dropWhile_eq_Nil_conv)
    ultimately show ?thesis using False by simp
  next
    case (Cons x rest)
    have "Split (c # cs) sep = (c # takeWhile (\<lambda>c. c \<noteq> sep) cs) # Split rest sep"
      using False by (subst Split.simps) (simp add: Cons del: dropWhile_eq_Nil_conv)
    moreover have "Split cs sep = takeWhile (\<lambda>c. c \<noteq> sep) cs # Split rest sep"
      by (subst Split.simps) (simp add: Cons del: dropWhile_eq_Nil_conv)
    ultimately show ?thesis using False by simp
  qed
qed

lemma decimal_digit: "n < 10 \<Longrightarrow> decimal n = [''0123456789'' ! n]"
  by (subst decimal.simps) simp

lemma decimal_more:
  "10 \<le> n \<Longrightarrow> decimal n = decimal (n div 10) @ [''0123456789'' ! (n mod 10)]"
  by (subst decimal.simps) simp

lemma sort_Strings_sorted: "sorted (sort_Strings xs)"
  by (simp add: sort_Strings_def)

lemma sort_Strings_mset: "mset (sort_Strings xs) = mset xs"
  by (simp add: sort_Strings_def)

lemma sort_Strings_length: "length (sort_Strings xs) = length xs"
  by (simp add: sort_Strings_def)

lemma sort_Strings_permutation: "mset xs = mset ys \<Longrightarrow> sort_Strings xs = sort_Strings ys"
  unfolding sort_Strings_def by (metis mset_sort properties_for_sort sorted_sort)

subsection \<open>What one resolution cycle does\<close>

lemma called_simps [simp]:
  "calls (called e c) = calls c @ [e]"
  "serverList (called e c) = serverList c"
  "numServers (called e c) = numServers c"
  "addresses (called e c) = addresses c"
  "hostname (called e c) = hostname c"
  "service (called e c) = service c"
  "quit (called e c) = quit c"
  "wait (called e c) = wait c"
  "loop (called e c) = loop c"
  "stop (called e c) = stop c"
  by (simp_all add: called_def)

lemma resolve_servers_static:
  "addresses c \<noteq> [] \<Longrightarrow>
   resolve_servers w c =
     (Inr (provider_Addresses w (addresses c)), called (Resolve (addresses c)) c)"
  by (simp add: resolve_servers_def)

lemma resolve_servers_Inl:
  assumes "fst (resolve_servers w c) = Inl err"
  shows "addresses c = []"
    and "net_LookupSRV w (service c) ''tcp'' (hostname c) = Inl err"
    and "snd (resolve_servers w c) = called (LookupSRV (service c) ''tcp'' (hostname c)) c"
  using assms by (auto simp: resolve_servers_def split: if_splits sum.splits)

lemma resolve_servers_frame:
  "serverList (snd (resolve_servers w c)) = serverList c"
  "numServers (snd (resolve_servers w c)) = numServers c"
  "quit (snd (resolve_servers w c)) = quit c"
  "wait (snd (resolve_servers w c)) = wait c"
  "loop (snd (resolve_servers w c)) = loop c"
  "stop (snd (resolve_servers w c)) = stop c"
  by (simp_all add: resolve_servers_def split: sum.split)

lemma resolve_servers_calls:
  "calls (snd (resolve_servers w c)) =
     calls c @ [if addresses c \<noteq> [] then Resolve (addresses c)
                else LookupSRV (service c) ''tcp'' (hostname c)]"
  by (simp add: resolve_servers_def split: sum.split)

lemma update_failed:
  "fst (resolve_servers w c) = Inl err \<Longrightarrow>
   updateMemcacheServers w c = (Some err, snd (resolve_servers w c))"
  by (cases "resolve_servers w c") (simp add: updateMemcacheServers_def)

lemma update_resolved:
  "fst (resolve_servers w c) = Inr resolved \<Longrightarrow>
   updateMemcacheServers w c =
     selector_SetServers w (sort_Strings resolved)
       (called (GaugeSet (length resolved))
          ((snd (resolve_servers w c))\<lparr>numServers := length resolved\<rparr>))"
  by (cases "resolve_servers w c")
     (simp add: updateMemcacheServers_def Let_def sort_Strings_length)

lemma update_frame:
  "quit (snd (updateMemcacheServers w c)) = quit c"
  "wait (snd (updateMemcacheServers w c)) = wait c"
  "loop (snd (updateMemcacheServers w c)) = loop c"
  "stop (snd (updateMemcacheServers w c)) = stop c"
  by (cases "fst (resolve_servers w c)";
      simp add: update_failed update_resolved selector_SetServers_def resolve_servers_frame
        split: option.split)+

lemma tick_frame:
  "quit (tick w c) = quit c"
  "wait (tick w c) = wait c"
  "loop (tick w c) = loop c"
  "stop (tick w c) = stop c"
  by (cases "updateMemcacheServers w c"; cases "fst (updateMemcacheServers w c)";
      use update_frame [of w c] in \<open>simp add: tick_def\<close>)+

lemma update_calls:
  "calls (snd (updateMemcacheServers w c)) =
     calls c @
     (case fst (resolve_servers w c) of
        Inl err \<Rightarrow> [LookupSRV (service c) ''tcp'' (hostname c)]
      | Inr resolved \<Rightarrow>
          [if addresses c \<noteq> [] then Resolve (addresses c)
           else LookupSRV (service c) ''tcp'' (hostname c),
           GaugeSet (length resolved), SetServers (sort_Strings resolved)])"
proof (cases "fst (resolve_servers w c)")
  case (Inl err)
  then show ?thesis
    using resolve_servers_Inl [OF Inl] by (simp add: update_failed)
next
  case (Inr resolved)
  then show ?thesis
    by (simp add: update_resolved selector_SetServers_def resolve_servers_calls
          split: option.split)
qed

lemma update_result:
  "fst (updateMemcacheServers w c) =
     (case fst (resolve_servers w c) of
        Inl err \<Rightarrow> Some err
      | Inr resolved \<Rightarrow> SetServers_err w (sort_Strings resolved))"
  by (cases "fst (resolve_servers w c)")
     (simp_all add: update_failed update_resolved selector_SetServers_def split: option.split)

lemma update_serverList:
  "serverList (snd (updateMemcacheServers w c)) =
     (case fst (resolve_servers w c) of
        Inl err \<Rightarrow> serverList c
      | Inr resolved \<Rightarrow>
          (case SetServers_err w (sort_Strings resolved) of
             None \<Rightarrow> sort_Strings resolved
           | Some err \<Rightarrow> serverList c))"
  by (cases "fst (resolve_servers w c)")
     (simp_all add: update_failed update_resolved selector_SetServers_def resolve_servers_frame
        split: option.split)

lemma update_numServers:
  "numServers (snd (updateMemcacheServers w c)) =
     (case fst (resolve_servers w c) of
        Inl err \<Rightarrow> numServers c
      | Inr resolved \<Rightarrow> length resolved)"
  by (cases "fst (resolve_servers w c)")
     (simp_all add: update_failed update_resolved selector_SetServers_def resolve_servers_frame
        split: option.split)

lemma newClient_simps:
  "addresses (newClient cfg name) = Split (Addresses cfg) (CHR '','')"
  "calls (newClient cfg name) = []"
  "hostname (newClient cfg name) = Host cfg"
  "service (newClient cfg name) = Service cfg"
  "serverList (newClient cfg name) = []"
  "numServers (newClient cfg name) = 0"
  "wait (newClient cfg name) = 0"
  "quit (newClient cfg name) = False"
  "stop (newClient cfg name) = NotCalled"
  by (simp_all add: newClient_def)

lemma newClient_resolves:
  "fst (resolve_servers w (newClient cfg name)) =
     Inr (provider_Addresses w (Split (Addresses cfg) (CHR '','')))"
  by (simp add: resolve_servers_static newClient_simps Split_not_Nil)

lemma New_calls:
  "calls (NewMemcachedClient w cfg name) =
     [Resolve (Split (Addresses cfg) (CHR '','')),
      GaugeSet (length (provider_Addresses w (Split (Addresses cfg) (CHR '','')))),
      SetServers (sort_Strings (provider_Addresses w (Split (Addresses cfg) (CHR '','')))) ] @
     (case SetServers_err w (sort_Strings (provider_Addresses w (Split (Addresses cfg) (CHR '','')))) of
        Some e \<Rightarrow>
          [Log Error [(''msg'', ''error setting memcache servers to host''),
                      (''host'', Host cfg), (''err'', e)]]
      | None \<Rightarrow> [])"
proof -
  obtain err c where u: "updateMemcacheServers w (newClient cfg name) = (err, c)"
    by (cases "updateMemcacheServers w (newClient cfg name)")
  have e: "err = SetServers_err w (sort_Strings (provider_Addresses w (Split (Addresses cfg) (CHR '',''))))"
    using update_result [of w "newClient cfg name"] u by (simp add: newClient_resolves)
  have c: "calls c = [Resolve (Split (Addresses cfg) (CHR '','')),
      GaugeSet (length (provider_Addresses w (Split (Addresses cfg) (CHR '','')))),
      SetServers (sort_Strings (provider_Addresses w (Split (Addresses cfg) (CHR '','')))) ]"
    using update_calls [of w "newClient cfg name"] u
    by (simp add: newClient_resolves newClient_simps Split_not_Nil)
  show ?thesis
    by (simp add: NewMemcachedClient_def u e [symmetric] c Let_def split: option.split)
qed

lemma resolve_servers_config:
  "addresses (snd (resolve_servers w c)) = addresses c"
  "hostname (snd (resolve_servers w c)) = hostname c"
  "service (snd (resolve_servers w c)) = service c"
  by (simp_all add: resolve_servers_def split: sum.split)

lemma update_config:
  "addresses (snd (updateMemcacheServers w c)) = addresses c"
  "hostname (snd (updateMemcacheServers w c)) = hostname c"
  "service (snd (updateMemcacheServers w c)) = service c"
  by (cases "fst (resolve_servers w c)";
      simp add: update_failed update_resolved selector_SetServers_def resolve_servers_config
        split: option.split)+

lemma tick_eq:
  "tick w c =
     (case fst (updateMemcacheServers w c) of
        Some err \<Rightarrow>
          called (Log Warn [(''msg'', ''error updating memcache servers''), (''err'', err)])
            (snd (updateMemcacheServers w c))
      | None \<Rightarrow> snd (updateMemcacheServers w c))"
  by (cases "updateMemcacheServers w c") (simp add: tick_def split: option.split)

lemma tick_config:
  "addresses (tick w c) = addresses c"
  "hostname (tick w c) = hostname c"
  "service (tick w c) = service c"
  by (simp_all add: tick_eq update_config split: option.split)

lemma tick_serverList:
  "serverList (tick w c) = serverList (snd (updateMemcacheServers w c))"
  by (simp add: tick_eq split: option.split)

lemma tick_numServers:
  "numServers (tick w c) = numServers (snd (updateMemcacheServers w c))"
  by (simp add: tick_eq split: option.split)

lemma tick_calls:
  "calls (tick w c) =
     calls (snd (updateMemcacheServers w c)) @
     (case fst (updateMemcacheServers w c) of
        Some err \<Rightarrow> [Log Warn [(''msg'', ''error updating memcache servers''), (''err'', err)]]
      | None \<Rightarrow> [])"
  by (simp add: tick_eq split: option.split)

lemma New_eq:
  "NewMemcachedClient w cfg name =
     (case fst (updateMemcacheServers w (newClient cfg name)) of
        Some e \<Rightarrow>
          called (Log Error [(''msg'', ''error setting memcache servers to host''),
                             (''host'', Host cfg), (''err'', e)])
            (snd (updateMemcacheServers w (newClient cfg name)))
      | None \<Rightarrow> snd (updateMemcacheServers w (newClient cfg name)))
     \<lparr>wait := 1, loop := Running\<rparr>"
proof -
  obtain err c where u: "updateMemcacheServers w (newClient cfg name) = (err, c)"
    by (cases "updateMemcacheServers w (newClient cfg name)")
  have "wait c = 0"
    using update_frame(2) [of w "newClient cfg name"] by (simp add: u newClient_simps)
  then show ?thesis
    by (simp add: NewMemcachedClient_def Let_def called_def u split: option.split)
qed

lemma new_calls_append: "calls c' = calls c @ xs \<Longrightarrow> new_calls c c' = xs"
  by (simp add: new_calls_def)

lemma New_addresses:
  "addresses (NewMemcachedClient w cfg name) = Split (Addresses cfg) (CHR '','')"
  by (simp add: New_eq update_config newClient_simps split: option.split)

lemma New_frame:
  "loop (NewMemcachedClient w cfg name) = Running"
  "wait (NewMemcachedClient w cfg name) = 1"
  "quit (NewMemcachedClient w cfg name) = False"
  "stop (NewMemcachedClient w cfg name) = NotCalled"
  by (simp_all add: New_eq update_frame newClient_simps split: option.split)

lemma New_serverList:
  "serverList (NewMemcachedClient w cfg name) =
     serverList (snd (updateMemcacheServers w (newClient cfg name)))"
  by (simp add: New_eq split: option.split)

subsection \<open>Discovery\<close>

text \<open>
  The branch of \<^verbatim>\<open>updateMemcacheServers\<close> for a client without addresses: one SRV lookup,
  and one \<open>target:port\<close> string for each record of the answer, whatever its priority and
  weight.
\<close>

lemma srv_address_ignores_priority_weight:
  "srv_address (srv\<lparr>Priority := p, Weight := q\<rparr>) = srv_address srv"
  by (simp add: srv_address_def)

lemma lookup_branch:
  assumes "addresses c = []"
    and "net_LookupSRV w (service c) ''tcp'' (hostname c) = Inr addrs"
  shows "new_calls c (snd (updateMemcacheServers w c)) =
      [LookupSRV (service c) ''tcp'' (hostname c),
       GaugeSet (length addrs),
       SetServers (sort_Strings (map srv_address addrs))]"
proof -
  have "fst (resolve_servers w c) = Inr (map srv_address addrs)"
    using assms by (simp add: resolve_servers_def)
  then show ?thesis
    using assms(1) by (intro new_calls_append) (simp add: update_calls)
qed

lemma lookup_branch_example:
  "new_calls srv_client (snd (updateMemcacheServers dns_up srv_client)) =
      [LookupSRV ''memcached'' ''tcp'' ''memcached.cortex.svc.cluster.local'',
       GaugeSet 2,
       SetServers [''memcached-0.memcached.:11211'', ''memcached-1.memcached.:11211'']]"
proof -
  have a: "addresses srv_client = []" "service srv_client = ''memcached''"
    "hostname srv_client = ''memcached.cortex.svc.cluster.local''"
    by (simp_all add: srv_client_def newClient_def default_cfg_def)
  have d: "decimal 11211 = ''11211''"
    by (simp add: decimal_digit decimal_more)
  have "net_LookupSRV dns_up (service srv_client) ''tcp'' (hostname srv_client) = Inr two_records"
    by (simp add: dns_up_def)
  from lookup_branch [OF a(1) this] show ?thesis
    by (simp add: a two_records_def srv_address_def d sort_Strings_def)
qed

text \<open>
  C1. With the default configuration (a hostname and a service, no address list) the
  constructor splits the empty address string into the one-element list \<open>['''']\<close>, which is
  not empty: the first resolution and every later tick hand that list to the DNS provider,
  and no SRV lookup is ever made.
\<close>

theorem default_config_never_looks_up_SRV:
  "addresses (NewMemcachedClient w default_cfg ''chunks'') = ['''']
   \<and> calls (NewMemcachedClient w default_cfg ''chunks'') =
       [Resolve [''''],
        GaugeSet (length (provider_Addresses w [''''])),
        SetServers (sort_Strings (provider_Addresses w ['''']))] @
       (case SetServers_err w (sort_Strings (provider_Addresses w [''''])) of
          Some e \<Rightarrow>
            [Log Error [(''msg'', ''error setting memcache servers to host''),
                        (''host'', ''memcached.cortex.svc.cluster.local''), (''err'', e)]]
        | None \<Rightarrow> [])
   \<and> filter is_resolution (calls (tick w' (NewMemcachedClient w default_cfg ''chunks'')))
       = [Resolve [''''], Resolve ['''']]"
proof -
  let ?c = "NewMemcachedClient w default_cfg ''chunks''"
  have s: "Split (Addresses default_cfg) (CHR '','') = ['''']"
    by (simp add: default_cfg_def Split_Nil)
  have a: "addresses ?c = ['''']"
    by (simp add: New_addresses s)
  have h: "Host default_cfg = ''memcached.cortex.svc.cluster.local''"
    by (simp add: default_cfg_def)
  have c: "calls ?c =
       [Resolve [''''],
        GaugeSet (length (provider_Addresses w [''''])),
        SetServers (sort_Strings (provider_Addresses w ['''']))] @
       (case SetServers_err w (sort_Strings (provider_Addresses w [''''])) of
          Some e \<Rightarrow>
            [Log Error [(''msg'', ''error setting memcache servers to host''),
                        (''host'', ''memcached.cortex.svc.cluster.local''), (''err'', e)]]
        | None \<Rightarrow> [])"
    unfolding New_calls s h ..
  have r: "fst (resolve_servers w' ?c) = Inr (provider_Addresses w' [''''])"
    by (simp add: resolve_servers_static a)
  have t: "filter is_resolution (calls (tick w' ?c)) = [Resolve [''''], Resolve ['''']]"
    by (simp add: tick_calls update_calls r a c split: option.split)
  from a c t show ?thesis by blast
qed

lemma update_installs_sorted:
  assumes "fst (resolve_servers w c) = Inr resolved"
  shows "last (calls (snd (updateMemcacheServers w c))) = SetServers (sort_Strings resolved)
    \<and> sorted (sort_Strings resolved)
    \<and> mset (sort_Strings resolved) = mset resolved
    \<and> (SetServers_err w (sort_Strings resolved) = None \<longrightarrow>
         serverList (snd (updateMemcacheServers w c)) = sort_Strings resolved)
    \<and> (\<forall>w' c' resolved'.
         fst (resolve_servers w' c') = Inr resolved' \<and> mset resolved' = mset resolved
         \<and> SetServers_err w' (sort_Strings resolved') = None \<longrightarrow>
         serverList (snd (updateMemcacheServers w' c')) = sort_Strings resolved)"
proof -
  have "last (calls (snd (updateMemcacheServers w c))) = SetServers (sort_Strings resolved)"
    by (simp add: update_calls assms)
  moreover have "SetServers_err w (sort_Strings resolved) = None \<longrightarrow>
      serverList (snd (updateMemcacheServers w c)) = sort_Strings resolved"
    by (simp add: update_serverList assms)
  moreover have "serverList (snd (updateMemcacheServers w' c')) = sort_Strings resolved"
    if "fst (resolve_servers w' c') = Inr resolved'" "mset resolved' = mset resolved"
      "SetServers_err w' (sort_Strings resolved') = None" for w' c' resolved'
    using that sort_Strings_permutation [of resolved' resolved]
    by (simp add: update_serverList)
  ultimately show ?thesis
    using sort_Strings_sorted sort_Strings_mset by blast
qed

lemma static_cfg_Split:
  "Split (Addresses static_cfg) (CHR '','') = [''b:1'', ''a:1'', ''c:1'']"
  by (simp add: static_cfg_def Split_Nil Split_Cons)

lemma static_addresses_sorted:
  assumes "mset (provider_Addresses w [''b:1'', ''a:1'', ''c:1'']) = mset [''b:1'', ''a:1'', ''c:1'']"
    and "SetServers_err w [''a:1'', ''b:1'', ''c:1''] = None"
  shows "serverList (NewMemcachedClient w static_cfg name) = [''a:1'', ''b:1'', ''c:1'']"
proof -
  have "sort_Strings (provider_Addresses w [''b:1'', ''a:1'', ''c:1''])
      = sort_Strings [''b:1'', ''a:1'', ''c:1'']"
    using assms(1) by (rule sort_Strings_permutation)
  also have "\<dots> = [''a:1'', ''b:1'', ''c:1'']"
    by (simp add: sort_Strings_def)
  finally show ?thesis
    using assms(2)
    by (simp add: New_serverList update_serverList newClient_resolves static_cfg_Split)
qed

text \<open>
  C2. When the resolution succeeds, \<^verbatim>\<open>SetServers\<close> is called last, with the resolved
  addresses in sorted order (the same addresses, each as often as resolved); the selector
  installs that list unless it refuses it; and any resolution that returns the same
  addresses in another order installs the same list. In particular, with the static
  addresses \<open>b:1\<close>, \<open>a:1\<close>, \<open>c:1\<close>, in whatever order the provider hands them back, the
  constructed client's server list is \<open>a:1\<close>, \<open>b:1\<close>, \<open>c:1\<close>.
\<close>

theorem servers_installed_sorted:
  "(\<forall>resolved. fst (resolve_servers w c) = Inr resolved \<longrightarrow>
       last (calls (snd (updateMemcacheServers w c))) = SetServers (sort_Strings resolved)
       \<and> sorted (sort_Strings resolved)
       \<and> mset (sort_Strings resolved) = mset resolved
       \<and> (SetServers_err w (sort_Strings resolved) = None \<longrightarrow>
            serverList (snd (updateMemcacheServers w c)) = sort_Strings resolved)
       \<and> (\<forall>w' c' resolved'.
            fst (resolve_servers w' c') = Inr resolved' \<and> mset resolved' = mset resolved
            \<and> SetServers_err w' (sort_Strings resolved') = None \<longrightarrow>
            serverList (snd (updateMemcacheServers w' c')) = sort_Strings resolved))
   \<and> (mset (provider_Addresses w [''b:1'', ''a:1'', ''c:1'']) = mset [''b:1'', ''a:1'', ''c:1'']
        \<and> SetServers_err w [''a:1'', ''b:1'', ''c:1''] = None \<longrightarrow>
        serverList (NewMemcachedClient w static_cfg name) = [''a:1'', ''b:1'', ''c:1''])"
proof (intro conjI allI impI)
  fix resolved
  assume r: "fst (resolve_servers w c) = Inr resolved"
  note u = update_installs_sorted [OF r]
  from u show "last (calls (snd (updateMemcacheServers w c))) = SetServers (sort_Strings resolved)"
    by (rule conjunct1)
  from u show "sorted (sort_Strings resolved)" by simp
  from u show "mset (sort_Strings resolved) = mset resolved" by simp
  show "serverList (snd (updateMemcacheServers w c)) = sort_Strings resolved"
    if "SetServers_err w (sort_Strings resolved) = None"
    using u that by simp
  show "serverList (snd (updateMemcacheServers w' c')) = sort_Strings resolved"
    if "fst (resolve_servers w' c') = Inr resolved' \<and> mset resolved' = mset resolved
        \<and> SetServers_err w' (sort_Strings resolved') = None" for w' c' resolved'
    using u that by blast
next
  assume "mset (provider_Addresses w [''b:1'', ''a:1'', ''c:1'']) = mset [''b:1'', ''a:1'', ''c:1'']
      \<and> SetServers_err w [''a:1'', ''b:1'', ''c:1''] = None"
  then show "serverList (NewMemcachedClient w static_cfg name) = [''a:1'', ''b:1'', ''c:1'']"
    using static_addresses_sorted by blast
qed

theorem servers_installed_sorted_witness:
  "fst (resolve_servers dns_up (newClient static_cfg ''chunks'')) = Inr [''c:1'', ''a:1'', ''b:1'']
   \<and> SetServers_err dns_up [''a:1'', ''b:1'', ''c:1''] = None
   \<and> sort_Strings [''c:1'', ''a:1'', ''b:1''] = [''a:1'', ''b:1'', ''c:1'']
   \<and> provider_Addresses dns_up [''b:1'', ''a:1'', ''c:1''] = [''c:1'', ''a:1'', ''b:1'']
   \<and> serverList (snd (updateMemcacheServers dns_up (newClient static_cfg ''chunks'')))
       = [''a:1'', ''b:1'', ''c:1'']
   \<and> serverList (NewMemcachedClient dns_up static_cfg ''chunks'') = [''a:1'', ''b:1'', ''c:1'']"
proof -
  have r: "fst (resolve_servers dns_up (newClient static_cfg ''chunks''))
      = Inr [''c:1'', ''a:1'', ''b:1'']"
    by (simp add: newClient_resolves static_cfg_Split dns_up_def)
  have e: "SetServers_err dns_up [''a:1'', ''b:1'', ''c:1''] = None"
    by (simp add: dns_up_def)
  have o: "sort_Strings [''c:1'', ''a:1'', ''b:1''] = [''a:1'', ''b:1'', ''c:1'']"
    by (simp add: sort_Strings_def)
  have p: "provider_Addresses dns_up [''b:1'', ''a:1'', ''c:1''] = [''c:1'', ''a:1'', ''b:1'']"
    by (simp add: dns_up_def)
  note t = servers_installed_sorted [of dns_up "newClient static_cfg ''chunks''" "''chunks''"]
  from t r e o
  have "serverList (snd (updateMemcacheServers dns_up (newClient static_cfg ''chunks'')))
      = [''a:1'', ''b:1'', ''c:1'']"
    by simp
  moreover from t p e
  have "serverList (NewMemcachedClient dns_up static_cfg ''chunks'') = [''a:1'', ''b:1'', ''c:1'']"
    by simp
  ultimately show ?thesis using r e o p by simp
qed

text \<open>
  C3. On a tick whose lookup returns an error, the selector's server list and the gauge
  stay as they were; the only calls made are the lookup and one log entry at warning level
  carrying the error; the loop is still running afterwards, and \<open>tick\<close> returns no error
  to anyone.
\<close>

theorem failed_tick_keeps_servers:
  assumes "fst (resolve_servers w c) = Inl err"
  shows "serverList (tick w c) = serverList c
    \<and> numServers (tick w c) = numServers c
    \<and> new_calls c (tick w c) =
        [LookupSRV (service c) ''tcp'' (hostname c),
         Log Warn [(''msg'', ''error updating memcache servers''), (''err'', err)]]
    \<and> loop (tick w c) = loop c
    \<and> quit (tick w c) = quit c
    \<and> wait (tick w c) = wait c
    \<and> stop (tick w c) = stop c"
proof -
  have "calls (tick w c) =
      calls c @ [LookupSRV (service c) ''tcp'' (hostname c),
         Log Warn [(''msg'', ''error updating memcache servers''), (''err'', err)]]"
    by (simp add: tick_calls update_calls update_result assms)
  then have "new_calls c (tick w c) =
      [LookupSRV (service c) ''tcp'' (hostname c),
       Log Warn [(''msg'', ''error updating memcache servers''), (''err'', err)]]"
    by (rule new_calls_append)
  moreover have "serverList (tick w c) = serverList c"
    by (simp add: tick_serverList update_serverList assms)
  moreover have "numServers (tick w c) = numServers c"
    by (simp add: tick_numServers update_numServers assms)
  ultimately show ?thesis
    by (simp add: tick_frame)
qed

lemma srv_client_simps:
  "addresses srv_client = []"
  "service srv_client = ''memcached''"
  "hostname srv_client = ''memcached.cortex.svc.cluster.local''"
  "serverList srv_client = [''memcached-0.memcached.:11211'']"
  "numServers srv_client = 1"
  "calls srv_client = []"
  "loop srv_client = Running"
  "wait srv_client = 1"
  "quit srv_client = False"
  "stop srv_client = NotCalled"
  by (simp_all add: srv_client_def newClient_def default_cfg_def)

theorem failed_tick_keeps_servers_witness:
  "fst (resolve_servers dns_down srv_client) = Inl ''no such host''
   \<and> serverList (tick dns_down srv_client) = [''memcached-0.memcached.:11211'']
   \<and> numServers (tick dns_down srv_client) = 1
   \<and> calls (tick dns_down srv_client) =
       [LookupSRV ''memcached'' ''tcp'' ''memcached.cortex.svc.cluster.local'',
        Log Warn [(''msg'', ''error updating memcache servers''), (''err'', ''no such host'')]]
   \<and> loop (tick dns_down srv_client) = Running"
proof -
  have r: "fst (resolve_servers dns_down srv_client) = Inl ''no such host''"
    by (simp add: resolve_servers_def srv_client_simps dns_down_def)
  from failed_tick_keeps_servers [OF r] r show ?thesis
    by (simp add: srv_client_simps new_calls_def)
qed

text \<open>
  C7. A resolution cycle sets the gauge exactly when its resolution succeeds, once, to the
  number of addresses resolved, whatever the selector then answers; with no address
  resolved that number is 0 and the cycle goes on to \<^verbatim>\<open>SetServers\<close> as with any other
  result. When the lookup fails the gauge is not set and keeps its value.
\<close>

theorem gauge_set_on_success_only:
  "(\<forall>resolved. fst (resolve_servers w c) = Inr resolved \<longrightarrow>
       numServers (snd (updateMemcacheServers w c)) = length resolved
       \<and> filter is_GaugeSet (new_calls c (snd (updateMemcacheServers w c)))
           = [GaugeSet (length resolved)]
       \<and> fst (updateMemcacheServers w c) = SetServers_err w (sort_Strings resolved))
   \<and> (\<forall>err. fst (resolve_servers w c) = Inl err \<longrightarrow>
       numServers (snd (updateMemcacheServers w c)) = numServers c
       \<and> filter is_GaugeSet (new_calls c (snd (updateMemcacheServers w c))) = []
       \<and> fst (updateMemcacheServers w c) = Some err)"
  by (simp add: update_numServers update_result update_calls new_calls_def)

lemma sort_Strings_Nil: "sort_Strings [] = []"
  by (simp add: sort_Strings_def)

theorem gauge_set_on_success_only_witness:
  "fst (resolve_servers dns_empty srv_client) = Inr []
   \<and> numServers srv_client = 1
   \<and> numServers (snd (updateMemcacheServers dns_empty srv_client)) = 0
   \<and> fst (updateMemcacheServers dns_empty srv_client) = None
   \<and> fst (resolve_servers dns_down srv_client) = Inl ''no such host''
   \<and> numServers (snd (updateMemcacheServers dns_down srv_client)) = 1"
proof -
  have r: "fst (resolve_servers dns_empty srv_client) = Inr []"
    by (simp add: resolve_servers_def srv_client_simps dns_empty_def)
  have d: "fst (resolve_servers dns_down srv_client) = Inl ''no such host''"
    by (simp add: resolve_servers_def srv_client_simps dns_down_def)
  have e: "SetServers_err dns_empty [] = None"
    by (simp add: dns_empty_def)
  from gauge_set_on_success_only [of dns_empty srv_client] r e
  have "numServers (snd (updateMemcacheServers dns_empty srv_client)) = 0
      \<and> fst (updateMemcacheServers dns_empty srv_client) = None"
    by (simp add: sort_Strings_Nil)
  moreover from gauge_set_on_success_only [of dns_down srv_client] d
  have "numServers (snd (updateMemcacheServers dns_down srv_client)) = 1"
    by (simp add: srv_client_simps)
  ultimately show ?thesis
    using r d by (simp add: srv_client_simps)
qed

text \<open>
  C5. The constructor runs one resolution cycle before it returns: one call to the
  resolver, one to the gauge, one to \<^verbatim>\<open>SetServers\<close>. If the cycle returns an error, that
  error is logged once at error level and nothing else is logged. Either way a client is
  returned, with \<open>quit\<close> open, the WaitGroup at 1 and the loop running.
\<close>

theorem constructor_resolves_once:
  "length (filter is_resolution (calls (NewMemcachedClient w cfg name))) = 1
   \<and> length (filter is_GaugeSet (calls (NewMemcachedClient w cfg name))) = 1
   \<and> length (filter is_SetServers (calls (NewMemcachedClient w cfg name))) = 1
   \<and> (\<forall>e. fst (updateMemcacheServers w (newClient cfg name)) = Some e \<longrightarrow>
         filter is_Log (calls (NewMemcachedClient w cfg name)) =
           [Log Error [(''msg'', ''error setting memcache servers to host''),
                       (''host'', Host cfg), (''err'', e)]])
   \<and> (fst (updateMemcacheServers w (newClient cfg name)) = None \<longrightarrow>
         filter is_Log (calls (NewMemcachedClient w cfg name)) = [])
   \<and> loop (NewMemcachedClient w cfg name) = Running
   \<and> wait (NewMemcachedClient w cfg name) = 1
   \<and> quit (NewMemcachedClient w cfg name) = False
   \<and> stop (NewMemcachedClient w cfg name) = NotCalled"
  by (simp add: New_calls New_frame update_result newClient_resolves split: option.split)

theorem constructor_resolves_once_witness:
  "fst (updateMemcacheServers selector_refuses (newClient static_cfg ''chunks''))
     = Some ''missing port in address''
   \<and> calls (NewMemcachedClient selector_refuses static_cfg ''chunks'') =
       [Resolve [''b:1'', ''a:1'', ''c:1''], GaugeSet 3, SetServers [''a:1'', ''b:1'', ''c:1''],
        Log Error [(''msg'', ''error setting memcache servers to host''),
                   (''host'', ''''), (''err'', ''missing port in address'')]]
   \<and> filter is_Log (calls (NewMemcachedClient selector_refuses static_cfg ''chunks'')) =
       [Log Error [(''msg'', ''error setting memcache servers to host''),
                   (''host'', ''''), (''err'', ''missing port in address'')]]
   \<and> loop (NewMemcachedClient selector_refuses static_cfg ''chunks'') = Running"
proof -
  have s: "Split (Addresses static_cfg) (CHR '','') = [''b:1'', ''a:1'', ''c:1'']"
    by (simp add: static_cfg_def Split_Nil Split_Cons)
  have u: "fst (updateMemcacheServers selector_refuses (newClient static_cfg ''chunks''))
      = Some ''missing port in address''"
    by (simp add: update_result newClient_resolves selector_refuses_def)
  have h: "Host static_cfg = ''''"
    by (simp add: static_cfg_def)
  have c: "calls (NewMemcachedClient selector_refuses static_cfg ''chunks'') =
       [Resolve [''b:1'', ''a:1'', ''c:1''], GaugeSet 3, SetServers [''a:1'', ''b:1'', ''c:1''],
        Log Error [(''msg'', ''error setting memcache servers to host''),
                   (''host'', ''''), (''err'', ''missing port in address'')]]"
    by (simp add: New_calls s h selector_refuses_def sort_Strings_def)
  from constructor_resolves_once [of selector_refuses static_cfg "''chunks''"] u h c
  show ?thesis by simp
qed

subsection \<open>Stopping\<close>

lemma step_wait_inv:
  assumes "step c c'" and "wait_inv c"
  shows "wait_inv c'"
  using assms
proof (cases rule: step.cases)
  case (step_tick w)
  with assms(2) show ?thesis by (simp add: wait_inv_def tick_frame)
next
  case step_quit
  with assms(2) show ?thesis by (auto simp: wait_inv_def loop_return_def)
next
  case step_close
  with assms(2) show ?thesis by (auto simp: wait_inv_def Stop_close_def)
next
  case step_wait
  with assms(2) show ?thesis by (auto simp: wait_inv_def Stop_wait_def split: if_splits)
qed

lemma reachable_wait_inv: "reachable c c' \<Longrightarrow> wait_inv c \<Longrightarrow> wait_inv c'"
  by (induction rule: reachable.induct) (auto intro: step_wait_inv)

lemma New_wait_inv: "wait_inv (NewMemcachedClient w cfg name)"
  by (simp add: wait_inv_def New_frame)

lemma no_step_once_returned:
  assumes "step c c'" and "stop c = Returned" and "loop c = Exited"
  shows False
  using assms by (cases rule: step.cases) auto

lemma reachable_once_returned:
  "reachable c c' \<Longrightarrow> stop c = Returned \<Longrightarrow> loop c = Exited \<Longrightarrow> c' = c"
  by (induction rule: reachable.induct) (auto dest: no_step_once_returned)

text \<open>
  C4. In every run of a constructed client, once \<^verbatim>\<open>Stop\<close> has returned the background
  goroutine has exited, and whatever happens afterwards makes no call at all: no
  \<^verbatim>\<open>SetServers\<close>, no update of the gauge, and the server list and the gauge's value stay
  as they were.
\<close>

theorem no_update_after_Stop:
  assumes "reachable (NewMemcachedClient w cfg name) c"
    and "stop c = Returned"
    and "reachable c c'"
  shows "loop c = Exited
    \<and> calls c' = calls c
    \<and> serverList c' = serverList c
    \<and> numServers c' = numServers c"
proof -
  have "wait_inv c"
    using assms(1) New_wait_inv by (rule reachable_wait_inv)
  with assms(2) have "loop c = Exited"
    by (simp add: wait_inv_def)
  moreover from assms(3,2) this have "c' = c"
    by (rule reachable_once_returned)
  ultimately show ?thesis by simp
qed

lemma stopped_client_reachable:
  "reachable (NewMemcachedClient dns_up static_cfg ''chunks'') stopped_client"
proof -
  let ?c0 = "NewMemcachedClient dns_up static_cfg ''chunks''"
  let ?c1 = "tick dns_up ?c0"
  let ?c2 = "Stop_close ?c1"
  let ?c3 = "tick dns_empty ?c2"
  let ?c4 = "loop_return ?c3"
  have l1: "loop ?c1 = Running" "stop ?c1 = NotCalled" "quit ?c1 = False" "wait ?c1 = 1"
    by (simp_all add: tick_frame New_frame)
  have l2: "loop ?c2 = Running" "stop ?c2 = Waiting" "quit ?c2" "wait ?c2 = 1"
    using l1 by (simp_all add: Stop_close_def)
  have l3: "loop ?c3 = Running" "stop ?c3 = Waiting" "quit ?c3" "wait ?c3 = 1"
    using l2 by (simp_all add: tick_frame)
  have l4: "stop ?c4 = Waiting" "wait ?c4 = 0"
    using l3 by (simp_all add: loop_return_def)
  have "reachable ?c0 ?c0" by (rule reach_refl)
  then have "reachable ?c0 ?c1"
    by (rule reach_step) (rule step_tick, simp add: New_frame)
  then have "reachable ?c0 ?c2"
    by (rule reach_step) (rule step_close, rule l1)
  then have "reachable ?c0 ?c3"
    by (rule reach_step) (rule step_tick, rule l2)
  then have "reachable ?c0 ?c4"
    by (rule reach_step) (rule step_quit, rule l3, rule l3)
  then have "reachable ?c0 (?c4\<lparr>stop := Returned\<rparr>)"
    by (rule reach_step) (rule step_wait, rule l4, simp add: Stop_wait_def l4)
  then show ?thesis by (simp add: stopped_client_def)
qed

theorem no_update_after_Stop_witness:
  "reachable (NewMemcachedClient dns_up static_cfg ''chunks'') stopped_client
   \<and> stop stopped_client = Returned
   \<and> reachable stopped_client stopped_client
   \<and> loop stopped_client = Exited
   \<and> wait stopped_client = 0"
proof -
  have s: "stop stopped_client = Returned"
    by (simp add: stopped_client_def)
  have r: "reachable stopped_client stopped_client"
    by (rule reach_refl)
  from no_update_after_Stop [OF stopped_client_reachable s r]
  have "loop stopped_client = Exited" by simp
  moreover from reachable_wait_inv [OF stopped_client_reachable New_wait_inv] this
  have "wait stopped_client = 0" by (simp add: wait_inv_def)
  ultimately show ?thesis
    using stopped_client_reachable s r by simp
qed

section \<open>Properties of rule configurations\<close>

subsection \<open>Equal\<close>

lemma index_Some_iff:
  "wf_map m \<Longrightarrow> index m k = Some v \<longleftrightarrow> (k, v) \<in> set (entries m)"
  by (simp add: index_def wf_map_def)

lemma Equal_range_subset:
  "wf_map other \<Longrightarrow> Equal_range kvs other \<longleftrightarrow> set kvs \<subseteq> set (entries other)"
proof (induction kvs)
  case Nil
  show ?case by simp
next
  case (Cons kv kvs)
  obtain k v1 where kv: "kv = (k, v1)" by (cases kv)
  show ?case
  proof (cases "index other k")
    case None
    with Cons.prems have "(k, v1) \<notin> set (entries other)"
      by (metis index_Some_iff option.distinct(1))
    with None show ?thesis by (simp add: kv)
  next
    case (Some v2)
    with Cons.prems have "(k, v1) \<in> set (entries other) \<longleftrightarrow> v1 = v2"
      by (metis index_Some_iff option.inject)
    with Some Cons show ?thesis by (simp add: kv)
  qed
qed

lemma wf_map_distinct: "wf_map m \<Longrightarrow> distinct (entries m)"
  unfolding wf_map_def by (rule distinct_map [THEN iffD1, THEN conjunct1])

lemma Equal_iff_same_pairs:
  assumes "wf_map c" and "wf_map other"
  shows "Equal c other \<longleftrightarrow> set (entries c) = set (entries other)"
proof
  assume e: "Equal c other"
  then have l: "length (entries other) = length (entries c)"
    by (simp add: Equal_def len_def split: if_splits)
  from e have "set (entries c) \<subseteq> set (entries other)"
    using Equal_range_subset [OF assms(2)] by (simp add: Equal_def split: if_splits)
  moreover have "card (set (entries other)) = card (set (entries c))"
    using l assms by (simp add: distinct_card wf_map_distinct)
  ultimately show "set (entries c) = set (entries other)"
    by (simp add: card_subset_eq)
next
  assume s: "set (entries c) = set (entries other)"
  then have "length (entries c) = length (entries other)"
    using assms by (metis distinct_card wf_map_distinct)
  with s show "Equal c other"
    using Equal_range_subset [OF assms(2)] by (simp add: Equal_def len_def)
qed

lemma same_pairs_iff_same_lookup:
  assumes "wf_map c" and "wf_map other"
  shows "set (entries c) = set (entries other) \<longleftrightarrow> index c = index other"
proof
  assume "set (entries c) = set (entries other)"
  then show "index c = index other"
    using assms unfolding index_def wf_map_def by (intro map_of_inject_set [THEN iffD2]) 
next
  assume "index c = index other"
  then show "set (entries c) = set (entries other)"
    using assms unfolding index_def wf_map_def by (intro map_of_inject_set [THEN iffD1]) 
qed

text \<open>
  C8. For maps \<open>c\<close> and \<open>other\<close>, \<^verbatim>\<open>c.Equal(other)\<close> holds exactly when both hold the same
  pairs of file name and content, that is when every key has the same lookup in both; so a
  map equals itself, and \<^verbatim>\<open>c.Equal(other)\<close> and \<^verbatim>\<open>other.Equal(c)\<close> agree. The nil map and
  the empty map hold the same pairs and are equal.
\<close>

theorem Equal_decides_map_equality:
  assumes "wf_map c" and "wf_map other"
  shows "(Equal c other \<longleftrightarrow> set (entries c) = set (entries other))
    \<and> (Equal c other \<longleftrightarrow> index c = index other)
    \<and> Equal c c
    \<and> (Equal c other \<longleftrightarrow> Equal other c)"
proof -
  note a = Equal_iff_same_pairs [OF assms]
  note b = Equal_iff_same_pairs [OF assms(2,1)]
  have "Equal c c"
    using Equal_iff_same_pairs [OF assms(1,1)] by simp
  moreover have "Equal c other \<longleftrightarrow> Equal other c"
    unfolding a b by (rule eq_commute)
  moreover have "Equal c other \<longleftrightarrow> index c = index other"
    unfolding a by (rule same_pairs_iff_same_lookup [OF assms])
  ultimately show ?thesis using a by simp
qed

theorem Equal_decides_map_equality_witness:
  "wf_map (Some [(''a.rules'', ''x''), (''b.rules'', ''y'')])
   \<and> wf_map (Some [(''b.rules'', ''y''), (''a.rules'', ''x'')])
   \<and> Equal (Some [(''a.rules'', ''x''), (''b.rules'', ''y'')])
        (Some [(''b.rules'', ''y''), (''a.rules'', ''x'')])
   \<and> Equal (Some [(''b.rules'', ''y''), (''a.rules'', ''x'')])
        (Some [(''a.rules'', ''x''), (''b.rules'', ''y'')])"
proof -
  have w: "wf_map (Some [(''a.rules'', ''x''), (''b.rules'', ''y'')])"
    "wf_map (Some [(''b.rules'', ''y''), (''a.rules'', ''x'')])"
    by (simp_all add: wf_map_def entries_def)
  have e: "Equal (Some [(''a.rules'', ''x''), (''b.rules'', ''y'')])
        (Some [(''b.rules'', ''y''), (''a.rules'', ''x'')])"
    by (simp add: Equal_def len_def entries_def index_def)
  from Equal_decides_map_equality [OF w] e
  have "Equal (Some [(''b.rules'', ''y''), (''a.rules'', ''x'')])
        (Some [(''a.rules'', ''x''), (''b.rules'', ''y'')])"
    by simp
  with w e show ?thesis by simp
qed

lemma Equal_nil_empty: "Equal None (Some [])"
  by (simp add: Equal_def len_def entries_def)

lemma Equal_differs:
  "\<not> Equal (Some [(''a.rules'', ''x''), (''b.rules'', ''y'')])
       (Some [(''b.rules'', ''z''), (''a.rules'', ''x'')])"
  by (simp add: Equal_def len_def entries_def index_def)

subsection \<open>GetVersionedRulesConfig\<close>

text \<open>
  C9. \<^verbatim>\<open>GetVersionedRulesConfig\<close> returns nil exactly when the view's rules files are the
  nil map. Otherwise the result carries the view's ID, rules files and deletion time
  unchanged, and it counts as deleted exactly when that time is not the zero time.
\<close>

theorem GetVersionedRulesConfig_spec:
  "(GetVersionedRulesConfig v = None \<longleftrightarrow> RulesFiles (View.Config v) = None)
   \<and> (\<forall>vr. GetVersionedRulesConfig v = Some vr \<longrightarrow>
         ID vr = View.ID v
         \<and> Config vr = RulesFiles (View.Config v)
         \<and> DeletedAt vr = View.DeletedAt v
         \<and> (IsDeleted vr \<longleftrightarrow> \<not> IsZero (View.DeletedAt v)))"
  by (auto simp: GetVersionedRulesConfig_def IsDeleted_def)

theorem GetVersionedRulesConfig_spec_witness:
  "GetVersionedRulesConfig deleted_view =
     Some \<lparr> ID = 7, Config = Some [(''a.rules'', ''up'')],
            DeletedAt = \<lparr> sec = 63713260800, nsec = 0, location = ''UTC'' \<rparr> \<rparr>
   \<and> IsDeleted \<lparr> ID = 7, Config = Some [(''a.rules'', ''up'')],
            DeletedAt = \<lparr> sec = 63713260800, nsec = 0, location = ''UTC'' \<rparr> \<rparr>"
proof -
  have g: "GetVersionedRulesConfig deleted_view =
     Some \<lparr> ID = 7, Config = Some [(''a.rules'', ''up'')],
            DeletedAt = \<lparr> sec = 63713260800, nsec = 0, location = ''UTC'' \<rparr> \<rparr>"
    by (simp add: GetVersionedRulesConfig_def deleted_view_def)
  from GetVersionedRulesConfig_spec [of deleted_view] g
  have "IsDeleted \<lparr> ID = 7, Config = Some [(''a.rules'', ''up'')],
            DeletedAt = \<lparr> sec = 63713260800, nsec = 0, location = ''UTC'' \<rparr> \<rparr>"
    by (simp add: IsZero_def deleted_view_def)
  with g show ?thesis by simp
qed

subsection \<open>Parse\<close>

lemma Parse_rules_isl:
  "isl (Parse_rules P rules rls) \<longleftrightarrow> (\<exists>rl \<in> set rules. isl (promql_ParseExpr P (Expr rl)))"
  by (induction rules arbitrary: rls) (auto split: sum.splits)

lemma Parse_groups_isl:
  "isl (Parse_groups P fn rgs groups) \<longleftrightarrow>
     (\<exists>rg \<in> set rgs. \<exists>rl \<in> set (Rules rg). isl (promql_ParseExpr P (Expr rl)))"
proof (induction rgs arbitrary: groups)
  case Nil
  show ?case by simp
next
  case (Cons rg rgs)
  show ?case
  proof (cases "Parse_rules P (Rules rg) []")
    case (Inl err)
    then have "\<exists>rl \<in> set (Rules rg). isl (promql_ParseExpr P (Expr rl))"
      using Parse_rules_isl [of P "Rules rg" "[]"] by simp
    with Inl show ?thesis by auto
  next
    case (Inr rls)
    then have "\<not> (\<exists>rl \<in> set (Rules rg). isl (promql_ParseExpr P (Expr rl)))"
      using Parse_rules_isl [of P "Rules rg" "[]"] by simp
    with Inr Cons.IH show ?thesis by simp
  qed
qed

lemma Parse_groups_Inr:
  "Parse_groups P fn rgs groups = Inr groups' \<Longrightarrow>
   dom groups' = dom groups \<union> (\<lambda>rg. Name rg @ '';'' @ fn) ` set rgs
   \<and> (\<forall>key rls. groups' key = Some rls \<longrightarrow>
         groups key = Some rls
         \<or> (\<exists>rg \<in> set rgs. key = Name rg @ '';'' @ fn
               \<and> Parse_rules P (Rules rg) [] = Inr rls))"
proof (induction rgs arbitrary: groups)
  case Nil
  then show ?case by simp
next
  case (Cons rg rgs)
  from Cons.prems obtain rls0 where r: "Parse_rules P (Rules rg) [] = Inr rls0"
    and g: "Parse_groups P fn rgs (groups(Name rg @ '';'' @ fn \<mapsto> rls0)) = Inr groups'"
    by (auto split: sum.splits)
  note ih = Cons.IH [OF g]
  have "dom groups' = dom groups \<union> (\<lambda>rg. Name rg @ '';'' @ fn) ` set (rg # rgs)"
    using ih by auto
  moreover have "groups key = Some rls
         \<or> (\<exists>rg' \<in> set (rg # rgs). key = Name rg' @ '';'' @ fn
               \<and> Parse_rules P (Rules rg') [] = Inr rls)"
    if "groups' key = Some rls" for key rls
  proof -
    from ih that have "(groups(Name rg @ '';'' @ fn \<mapsto> rls0)) key = Some rls
         \<or> (\<exists>rg' \<in> set rgs. key = Name rg' @ '';'' @ fn
               \<and> Parse_rules P (Rules rg') [] = Inr rls)"
      by blast
    then show ?thesis
      using r by (auto split: if_splits)
  qed
  ultimately show ?case by blast
qed

lemma group_keys_Nil: "group_keys P [] = {}"
  by (simp add: group_keys_def)

lemma group_keys_Cons:
  "group_keys P ((fn, content) # files) =
     (\<lambda>rg. Name rg @ '';'' @ fn) ` set (fst (rulefmt_Parse P content)) \<union> group_keys P files"
  by (auto simp: group_keys_def)

lemma Parse_files_isl:
  "isl (Parse_files P files groups) \<longleftrightarrow>
     (\<exists>(fn, content) \<in> set files. file_fails P content)"
proof (induction files arbitrary: groups)
  case Nil
  show ?case by simp
next
  case (Cons kv files)
  obtain fn content where f: "kv = (fn, content)" by (cases kv)
  obtain rgs errs where p: "rulefmt_Parse P content = (rgs, errs)"
    by (cases "rulefmt_Parse P content")
  show ?case
  proof (cases "errs = []")
    case False
    then show ?thesis by (simp add: f p file_fails_def)
  next
    case True
    show ?thesis
    proof (cases "Parse_groups P fn rgs groups")
      case (Inl err)
      then have "file_fails P content"
        using Parse_groups_isl [of P fn rgs groups] by (simp add: file_fails_def p)
      with Inl True show ?thesis by (simp add: f p)
    next
      case (Inr groups')
      then have "\<not> file_fails P content"
        using Parse_groups_isl [of P fn rgs groups] True by (simp add: file_fails_def p)
      with Inr True Cons.IH [of groups'] show ?thesis by (simp add: f p)
    qed
  qed
qed

lemma Parse_files_Inr:
  "Parse_files P files groups = Inr groups' \<Longrightarrow>
   dom groups' = dom groups \<union> group_keys P files
   \<and> (\<forall>key rls. groups' key = Some rls \<longrightarrow>
         groups key = Some rls
         \<or> (\<exists>fn content rg. (fn, content) \<in> set files
               \<and> rg \<in> set (fst (rulefmt_Parse P content))
               \<and> key = Name rg @ '';'' @ fn
               \<and> Parse_rules P (Rules rg) [] = Inr rls))"
proof (induction files arbitrary: groups)
  case Nil
  then show ?case by (simp add: group_keys_Nil)
next
  case (Cons kv files)
  obtain fn content where f: "kv = (fn, content)" by (cases kv)
  obtain rgs errs where p: "rulefmt_Parse P content = (rgs, errs)"
    by (cases "rulefmt_Parse P content")
  from Cons.prems obtain groups1 where g1: "Parse_groups P fn rgs groups = Inr groups1"
    and g2: "Parse_files P files groups1 = Inr groups'"
    by (auto simp: f p split: if_splits sum.splits)
  note a = Parse_groups_Inr [OF g1]
  note b = Cons.IH [OF g2]
  have "dom groups' = dom groups \<union> group_keys P (kv # files)"
    using a b by (auto simp: f group_keys_Cons p)
  moreover have "groups key = Some rls
         \<or> (\<exists>fn' content' rg. (fn', content') \<in> set (kv # files)
               \<and> rg \<in> set (fst (rulefmt_Parse P content'))
               \<and> key = Name rg @ '';'' @ fn'
               \<and> Parse_rules P (Rules rg) [] = Inr rls)"
    if k: "groups' key = Some rls" for key rls
  proof -
    from b k consider "groups1 key = Some rls"
      | "\<exists>fn' content' rg. (fn', content') \<in> set files
               \<and> rg \<in> set (fst (rulefmt_Parse P content'))
               \<and> key = Name rg @ '';'' @ fn'
               \<and> Parse_rules P (Rules rg) [] = Inr rls"
      by blast
    then show ?thesis
    proof cases
      case 1
      with a consider "groups key = Some rls"
        | "\<exists>rg \<in> set rgs. key = Name rg @ '';'' @ fn \<and> Parse_rules P (Rules rg) [] = Inr rls"
        by blast
      then show ?thesis
      proof cases
        case 1
        then show ?thesis by simp
      next
        case 2
        then obtain rg where "rg \<in> set (fst (rulefmt_Parse P content))"
          "key = Name rg @ '';'' @ fn" "Parse_rules P (Rules rg) [] = Inr rls"
          by (auto simp: p)
        then show ?thesis
          unfolding f by (intro disjI2 exI [of _ fn] exI [of _ content] exI [of _ rg]) simp
      qed
    next
      case 2
      then show ?thesis by auto
    qed
  qed
  ultimately show ?case by blast
qed

text \<open>
  C10. \<^verbatim>\<open>Parse\<close> returns an error exactly when some rule file fails: \<^verbatim>\<open>rulefmt.Parse\<close>
  reports an error for it, or one of its rules has an expression that
  \<^verbatim>\<open>promql.ParseExpr\<close> rejects. With an error it returns the nil map. Without one it
  returns a map whose keys are exactly the group names of the files, each joined to its
  file name by a semicolon, and every value is the list of rules built from a group with
  that key.
\<close>

theorem Parse_spec:
  "(snd (Parse P c) \<noteq> None \<longleftrightarrow> (\<exists>(fn, content) \<in> set (entries c). file_fails P content))
   \<and> (snd (Parse P c) \<noteq> None \<longrightarrow> fst (Parse P c) = None)
   \<and> (snd (Parse P c) = None \<longrightarrow>
        (\<exists>groups. fst (Parse P c) = Some groups
           \<and> dom groups = group_keys P (entries c)
           \<and> (\<forall>key rls. groups key = Some rls \<longrightarrow>
                 (\<exists>fn content rg. (fn, content) \<in> set (entries c)
                    \<and> rg \<in> set (fst (rulefmt_Parse P content))
                    \<and> key = Name rg @ '';'' @ fn
                    \<and> Parse_rules P (Rules rg) [] = Inr rls))))"
proof (cases "Parse_files P (entries c) Map.empty")
  case (Inl err)
  then have "\<exists>(fn, content) \<in> set (entries c). file_fails P content"
    using Parse_files_isl [of P "entries c" Map.empty] by simp
  with Inl show ?thesis by (simp add: Parse_def)
next
  case (Inr groups)
  then have n: "\<not> (\<exists>(fn, content) \<in> set (entries c). file_fails P content)"
    using Parse_files_isl [of P "entries c" Map.empty] by simp
  from Parse_files_Inr [OF Inr]
  have "dom groups = group_keys P (entries c)"
    and "\<forall>key rls. groups key = Some rls \<longrightarrow>
          (\<exists>fn content rg. (fn, content) \<in> set (entries c)
             \<and> rg \<in> set (fst (rulefmt_Parse P content))
             \<and> key = Name rg @ '';'' @ fn
             \<and> Parse_rules P (Rules rg) [] = Inr rls)"
    by simp_all
  with Inr n show ?thesis by (simp add: Parse_def)
qed

theorem Parse_spec_witness:
  "Parse toy_prometheus (Some [(''a.rules'', ''up''), (''b.rules'', ''bad'')])
     = (None, Some ''error parsing b.rules: yaml: unmarshal errors'')
   \<and> file_fails toy_prometheus ''bad''
   \<and> snd (Parse toy_prometheus (Some [(''a.rules'', ''up'')])) = None
   \<and> (\<exists>groups. fst (Parse toy_prometheus (Some [(''a.rules'', ''up'')])) = Some groups
         \<and> dom groups = {''g;a.rules''}
         \<and> groups ''g;a.rules'' = Some [RecordingRule ''r'' ''up'' []])"
proof -
  let ?c = "Some [(''a.rules'', ''up'')] :: RulesConfig"
  have b: "Parse toy_prometheus (Some [(''a.rules'', ''up''), (''b.rules'', ''bad'')])
     = (None, Some ''error parsing b.rules: yaml: unmarshal errors'')"
    by (simp add: Parse_def entries_def toy_prometheus_def)
  have f: "file_fails toy_prometheus ''bad''"
    by (simp add: file_fails_def toy_prometheus_def)
  have u: "Parse toy_prometheus ?c =
      (Some [''g;a.rules'' \<mapsto> [RecordingRule ''r'' ''up'' []]], None)"
    by (simp add: Parse_def entries_def toy_prometheus_def)
  have k: "group_keys toy_prometheus (entries ?c) = {''g;a.rules''}"
    by (simp add: group_keys_Cons group_keys_Nil entries_def toy_prometheus_def)
  from Parse_spec [of toy_prometheus ?c] u
  have "\<exists>groups. fst (Parse toy_prometheus ?c) = Some groups
         \<and> dom groups = group_keys toy_prometheus (entries ?c)"
    by simp
  with u k b f show ?thesis by simp
qed

section \<open>Properties of the bucket function\<close>

subsection \<open>Rounding\<close>

lemma ilog2_bounds: "1 \<le> n \<Longrightarrow> 2 ^ ilog2 n \<le> n \<and> n < 2 ^ (ilog2 n + 1)"
proof (induction n rule: ilog2.induct)
  case (1 n)
  show ?case
  proof (cases "n < 2")
    case True
    with "1.prems" have "n = 1" by simp
    then show ?thesis by (simp add: ilog2.simps)
  next
    case False
    then have "1 \<le> n div 2" by simp
    with "1.IH" False have ih: "2 ^ ilog2 (n div 2) \<le> n div 2"
      "n div 2 < 2 ^ (ilog2 (n div 2) + 1)"
      by simp_all
    have e: "ilog2 n = Suc (ilog2 (n div 2))"
      using False by (subst ilog2.simps) simp
    from ih show ?thesis
      unfolding e by (simp, presburger)
  qed
qed

lemma ilog2_floor:
  fixes x :: rat
  assumes "1 \<le> x"
  shows "2 ^ ilog2 \<lfloor>x\<rfloor> \<le> x" and "x < 2 ^ (ilog2 \<lfloor>x\<rfloor> + 1)"
proof -
  have "1 \<le> \<lfloor>x\<rfloor>" using assms by simp
  from ilog2_bounds [OF this]
  have a: "2 ^ ilog2 \<lfloor>x\<rfloor> \<le> \<lfloor>x\<rfloor>" and b: "\<lfloor>x\<rfloor> + 1 \<le> 2 ^ (ilog2 \<lfloor>x\<rfloor> + 1)"
    by simp_all
  have "(2::rat) ^ ilog2 \<lfloor>x\<rfloor> = of_int (2 ^ ilog2 \<lfloor>x\<rfloor>)" by simp
  also have "\<dots> \<le> of_int \<lfloor>x\<rfloor>" using a by (simp only: of_int_le_iff)
  also have "\<dots> \<le> x" by simp
  finally show "2 ^ ilog2 \<lfloor>x\<rfloor> \<le> x" .
  have "x < of_int (\<lfloor>x\<rfloor> + 1)" by linarith
  also have "\<dots> \<le> of_int (2 ^ (ilog2 \<lfloor>x\<rfloor> + 1))" using b by (simp only: of_int_le_iff)
  also have "\<dots> = 2 ^ (ilog2 \<lfloor>x\<rfloor> + 1)" by simp
  finally show "x < 2 ^ (ilog2 \<lfloor>x\<rfloor> + 1)" .
qed

lemma round_half_even_bounds:
  "\<lfloor>x\<rfloor> \<le> round_half_even x" "round_half_even x \<le> \<lfloor>x\<rfloor> + 1"
  by (simp_all add: round_half_even_def Let_def)

lemma round_half_even_of_int: "round_half_even (of_int k) = k"
  by (simp add: round_half_even_def)

lemma round_half_even_ge:
  assumes "of_int k \<le> x"
  shows "k \<le> round_half_even x"
proof -
  from assms have "k \<le> \<lfloor>x\<rfloor>" by (simp add: le_floor_iff)
  with round_half_even_bounds(1) [of x] show ?thesis by simp
qed

lemma round_half_even_le:
  assumes "x \<le> of_int k"
  shows "round_half_even x \<le> k"
proof (cases "x = of_int k")
  case True
  then show ?thesis by (simp add: round_half_even_of_int)
next
  case False
  with assms have "x < of_int k" by simp
  then have "\<lfloor>x\<rfloor> < k" by (simp add: floor_less_iff)
  with round_half_even_bounds(2) [of x] show ?thesis by simp
qed

lemma float64_ge:
  assumes "1 \<le> x" and "1 \<le> k" and "k \<le> 2 ^ 53" and "of_int k \<le> x"
  shows "of_int k \<le> float64 x"
proof -
  define e where "e = ilog2 \<lfloor>x\<rfloor>"
  define ulp :: rat where "ulp = 2 ^ e / 2 ^ 52"
  have ulp_pos: "0 < ulp" by (simp add: ulp_def)
  have f: "float64 x = of_int (round_half_even (x / ulp)) * ulp"
    by (simp add: float64_def Let_def ulp_def e_def)
  have lo: "2 ^ e \<le> x"
    using ilog2_floor(1) [OF assms(1)] by (simp add: e_def)
  show ?thesis
  proof (cases "e \<le> 52")
    case True
    have u: "ulp * 2 ^ (52 - e) = 1"
      using True by (simp add: ulp_def power_diff)
    have "of_int (k * 2 ^ (52 - e)) = of_int k * (2::rat) ^ (52 - e)" by simp
    also have "\<dots> \<le> x * 2 ^ (52 - e)" using assms(4) by simp
    also have "\<dots> = x / ulp" using u ulp_pos by (simp add: field_simps)
    finally have "k * 2 ^ (52 - e) \<le> round_half_even (x / ulp)"
      by (rule round_half_even_ge)
    then have le: "of_int (k * 2 ^ (52 - e)) * ulp \<le> of_int (round_half_even (x / ulp)) * ulp"
      using ulp_pos by (simp only: mult_le_cancel_right_pos of_int_le_iff)
    have "of_int (k * 2 ^ (52 - e)) * ulp = of_int k * (ulp * 2 ^ (52 - e))"
      by (simp add: mult_ac)
    also have "\<dots> = of_int k" by (simp only: u mult_1_right)
    finally have eq: "of_int (k * 2 ^ (52 - e)) * ulp = of_int k" .
    from le show ?thesis unfolding f eq .
  next
    case False
    then have e53: "53 \<le> e" by simp
    have "(2::rat) ^ 52 = 2 ^ e / ulp" by (simp add: ulp_def)
    also have "\<dots> \<le> x / ulp" using lo ulp_pos by (simp add: divide_le_cancel)
    finally have "of_int (2 ^ 52) \<le> x / ulp" by simp
    then have "2 ^ 52 \<le> round_half_even (x / ulp)"
      by (rule round_half_even_ge)
    then have le: "of_int (2 ^ 52) * ulp \<le> of_int (round_half_even (x / ulp)) * ulp"
      using ulp_pos by (simp only: mult_le_cancel_right_pos of_int_le_iff)
    have "of_int k \<le> (of_int (2 ^ 53) :: rat)"
      using assms(3) by (simp only: of_int_le_iff)
    also have "\<dots> = 2 ^ 53" by simp
    also have "\<dots> \<le> 2 ^ e"
      using e53 by (intro power_increasing) simp_all
    also have "\<dots> = of_int (2 ^ 52) * ulp" by (simp add: ulp_def)
    also note le
    finally show ?thesis unfolding f .
  qed
qed

lemma float64_le_pow2:
  assumes "1 \<le> x" and "x \<le> 2 ^ a"
  shows "float64 x \<le> 2 ^ a"
proof -
  define e where "e = ilog2 \<lfloor>x\<rfloor>"
  define ulp :: rat where "ulp = 2 ^ e / 2 ^ 52"
  have ulp_pos: "0 < ulp" by (simp add: ulp_def)
  have f: "float64 x = of_int (round_half_even (x / ulp)) * ulp"
    by (simp add: float64_def Let_def ulp_def e_def)
  have "(2::rat) ^ e \<le> x"
    using ilog2_floor(1) [OF assms(1)] by (simp add: e_def)
  then have "(2::rat) ^ e \<le> 2 ^ a" using assms(2) by (rule order_trans)
  then have ea: "e \<le> a" by simp
  have u: "ulp * 2 ^ (a + 52 - e) = 2 ^ a"
    using ea by (simp add: ulp_def power_diff power_add)
  have "x / ulp \<le> 2 ^ a / ulp"
    using assms(2) ulp_pos by (simp add: divide_le_cancel)
  also have "\<dots> = 2 ^ (a + 52 - e)"
    using u ulp_pos by (simp add: field_simps)
  also have "\<dots> = of_int (2 ^ (a + 52 - e))" by simp
  finally have "round_half_even (x / ulp) \<le> 2 ^ (a + 52 - e)"
    by (rule round_half_even_le)
  then have "of_int (round_half_even (x / ulp)) * ulp \<le> of_int (2 ^ (a + 52 - e)) * ulp"
    using ulp_pos by (simp only: mult_le_cancel_right_pos of_int_le_iff)
  also have "\<dots> = 2 ^ a" using u by (simp add: mult.commute)
  finally show ?thesis by (simp add: f)
qed

lemma float64_of_int:
  assumes "1 \<le> k" and "k < 2 ^ 53"
  shows "float64 (of_int k) = of_int k"
proof -
  define e where "e = ilog2 k"
  define ulp :: rat where "ulp = 2 ^ e / 2 ^ 52"
  have ulp_pos: "0 < ulp" by (simp add: ulp_def)
  have f: "float64 (of_int k) = of_int (round_half_even (of_int k / ulp)) * ulp"
    by (simp add: float64_def Let_def ulp_def e_def)
  have ek: "(2::int) ^ e \<le> k"
    using ilog2_bounds [OF assms(1)] by (simp add: e_def)
  have "e < 53"
  proof (rule ccontr)
    assume "\<not> e < 53"
    then have "(2::int) ^ 53 \<le> 2 ^ e" by (intro power_increasing) simp_all
    with ek assms(2) show False by simp
  qed
  then have u: "ulp * 2 ^ (52 - e) = 1"
    by (simp add: ulp_def power_diff)
  have "of_int k / ulp = of_int k * 2 ^ (52 - e)"
    using u ulp_pos by (simp add: field_simps)
  also have "\<dots> = of_int (k * 2 ^ (52 - e))" by simp
  finally have "round_half_even (of_int k / ulp) = k * 2 ^ (52 - e)"
    by (simp only: round_half_even_of_int)
  then have "float64 (of_int k) = of_int (k * 2 ^ (52 - e)) * ulp"
    by (simp add: f)
  also have "\<dots> = of_int k * (ulp * 2 ^ (52 - e))" by simp
  finally show ?thesis by (simp add: u)
qed

subsection \<open>The jumps\<close>

lemma uint_drop_bit_33: "uint (drop_bit 33 (w :: 64 word)) < 2 ^ 31"
proof -
  have "uint (drop_bit 33 w) = uint w div 2 ^ 33"
    by (simp add: drop_bit_eq_div uint_div)
  moreover have "uint w < 2 ^ 64"
    using uint_lt2p [of w] by simp
  ultimately show ?thesis by simp
qed

lemma int32_id: "0 \<le> b \<Longrightarrow> b < 2 ^ 31 \<Longrightarrow> int32 b = b"
  by (simp add: int32_def int_word_sint)

lemma next_jump_greater:
  assumes "0 \<le> j" and "j < 2 ^ 31"
  shows "\<exists>j'. next_jump key' j = Some j' \<and> j < j'"
proof -
  define d where "d = uint (drop_bit 33 key') + 1"
  have d1: "1 \<le> d" by (simp add: d_def)
  have d2: "d \<le> 2 ^ 31" using uint_drop_bit_33 [of key'] by (simp add: d_def)
  have f1: "float64 (of_int (j + 1)) = of_int (j + 1)"
    using assms by (intro float64_of_int) simp_all
  have "float64 (of_int (2 ^ 31)) = of_int (2 ^ 31)"
    by (intro float64_of_int) simp_all
  then have f2: "float64 (2 ^ 31) = 2 ^ 31" by simp
  have f3: "float64 (of_int d) = of_int d"
    using d1 d2 by (intro float64_of_int) simp_all
  define q :: rat where "q = 2 ^ 31 / of_int d"
  have "(of_int 1 :: rat) \<le> of_int d" "(of_int d :: rat) \<le> of_int (2 ^ 31)"
    using d1 d2 by (simp_all only: of_int_le_iff)
  then have dr: "(1::rat) \<le> of_int d" "(of_int d :: rat) \<le> 2 ^ 31"
    by simp_all
  have q1: "1 \<le> q"
    using dr by (simp add: q_def)
  have q2: "q \<le> 2 ^ 31"
    using dr by (simp add: q_def field_simps)
  have fq1: "1 \<le> float64 q"
    using float64_ge [of q 1] q1 by simp
  have fq2: "float64 q \<le> 2 ^ 31"
    using q1 q2 by (rule float64_le_pow2)
  define p :: rat where "p = of_int (j + 1) * float64 q"
  have "1 \<le> j + 1" "j + 1 \<le> 2 ^ 31"
    using assms by simp_all
  then have "(of_int 1 :: rat) \<le> of_int (j + 1)" "(of_int (j + 1) :: rat) \<le> of_int (2 ^ 31)"
    by (simp_all only: of_int_le_iff)
  then have jr: "(1::rat) \<le> of_int (j + 1)" "(of_int (j + 1) :: rat) \<le> 2 ^ 31"
    by simp_all
  have p1: "of_int (j + 1) \<le> p"
    using jr(1) fq1 by (simp add: p_def)
  have "p \<le> 2 ^ 31 * 2 ^ 31"
    unfolding p_def using jr fq1 fq2 by (intro mult_mono) simp_all
  then have p2: "p \<le> 2 ^ 62" by simp
  have p0: "1 \<le> p" using jr(1) p1 by simp
  have v1: "of_int (j + 1) \<le> float64 p"
    using p0 _ _ p1 by (rule float64_ge) (use assms in simp_all)
  have v2: "float64 p \<le> 2 ^ 62"
    using p0 p2 by (rule float64_le_pow2)
  have "int64 (float64 p) = Some \<lfloor>float64 p\<rfloor>"
    using v2 by (simp add: int64_def)
  moreover have "j + 1 \<le> \<lfloor>float64 p\<rfloor>"
    using v1 by (simp only: le_floor_iff)
  moreover have "next_jump key' j = int64 (float64 p)"
    unfolding next_jump_def f1 f2 d_def [symmetric] f3 p_def q_def ..
  ultimately show ?thesis by simp
qed

lemma jump_loop_stop: "\<not> j < n \<Longrightarrow> jump_loop key b j n = Some b"
  by (subst jump_loop.simps) simp

lemma jump_loop_continue:
  assumes "j < n" and "next_jump (key * 2862933555777941757 + 1) j = Some j'"
  shows "jump_loop key b j n = jump_loop (key * 2862933555777941757 + 1) j j' n"
  using assms by (subst jump_loop.simps) (simp add: Let_def)

lemma jump_loop_total:
  assumes "0 \<le> j" and "n \<le> 2 ^ 31"
  shows "\<exists>r. jump_loop key b j n = Some r \<and> (if j < n then j \<le> r \<and> r < n else r = b)"
  using assms
proof (induction "nat (n - j)" arbitrary: key b j rule: less_induct)
  case less
  show ?case
  proof (cases "j < n")
    case False
    then show ?thesis by (simp add: jump_loop_stop)
  next
    case True
    with less.prems have "j < 2 ^ 31" by simp
    from next_jump_greater [OF less.prems(1) this, of "key * 2862933555777941757 + 1"]
    obtain j' where s: "next_jump (key * 2862933555777941757 + 1) j = Some j'"
      and g: "j < j'"
      by blast
    have u: "jump_loop key b j n = jump_loop (key * 2862933555777941757 + 1) j j' n"
      using True s by (rule jump_loop_continue)
    have "nat (n - j') < nat (n - j)" using True g by simp
    moreover have "0 \<le> j'" using less.prems(1) g by simp
    ultimately obtain r where
      "jump_loop (key * 2862933555777941757 + 1) j j' n = Some r"
      "if j' < n then j' \<le> r \<and> r < n else r = j"
      using less.hyps less.prems(2) by blast
    with u True g show ?thesis by (auto split: if_splits)
  qed
qed

lemma jump_loop_grow:
  assumes "0 \<le> j" and "n < 2 ^ 31"
    and "jump_loop key b j n = Some r" and "jump_loop key b j (n + 1) = Some r'"
  shows "r' = r \<or> r' = n"
  using assms
proof (induction "nat (n + 1 - j)" arbitrary: key b j rule: less_induct)
  case less
  show ?case
  proof (cases "j < n + 1")
    case False
    with less.prems(3,4) show ?thesis by (simp add: jump_loop_stop)
  next
    case True
    with less.prems have "j < 2 ^ 31" by simp
    from next_jump_greater [OF less.prems(1) this, of "key * 2862933555777941757 + 1"]
    obtain j' where s: "next_jump (key * 2862933555777941757 + 1) j = Some j'"
      and g: "j < j'"
      by blast
    have u': "jump_loop key b j (n + 1) = jump_loop (key * 2862933555777941757 + 1) j j' (n + 1)"
      using True s by (rule jump_loop_continue)
    show ?thesis
    proof (cases "j < n")
      case False
      with True have jn: "j = n" by simp
      then have "\<not> j' < n + 1" using g by simp
      then have "jump_loop (key * 2862933555777941757 + 1) j j' (n + 1) = Some j"
        by (rule jump_loop_stop)
      with u' less.prems(4) jn show ?thesis by simp
    next
      case jn: True
      have u: "jump_loop key b j n = jump_loop (key * 2862933555777941757 + 1) j j' n"
        using jn s by (rule jump_loop_continue)
      have "nat (n + 1 - j') < nat (n + 1 - j)" using True g by simp
      moreover have "0 \<le> j'" using less.prems(1) g by simp
      moreover have "jump_loop (key * 2862933555777941757 + 1) j j' n = Some r"
        using u less.prems(3) by simp
      moreover have "jump_loop (key * 2862933555777941757 + 1) j j' (n + 1) = Some r'"
        using u' less.prems(4) by simp
      ultimately show ?thesis
        using less.hyps less.prems(2) by blast
    qed
  qed
qed

text \<open>
  C6. The bucket function is a total function of the key and the number of buckets: for
  every 64-bit key and every bucket count \<open>n\<close> from 1 up to the largest the 32-bit result
  can index, it returns a bucket in \<open>[0, n)\<close>; and with \<open>n + 1\<close> buckets the key's bucket is
  the same as with \<open>n\<close>, or it is the new bucket \<open>n\<close>.
\<close>

theorem jumpHash_prefix_stable:
  assumes "1 \<le> n" and "n < 2 ^ 31"
  shows "\<exists>b b'. jumpHash key n = Some b \<and> 0 \<le> b \<and> b < n
           \<and> jumpHash key (n + 1) = Some b' \<and> 0 \<le> b' \<and> b' < n + 1
           \<and> (b' = b \<or> b' = n)"
proof -
  from jump_loop_total [of 0 n key "- 1"] assms
  obtain r where r: "jump_loop key (- 1) 0 n = Some r" "0 \<le> r" "r < n"
    by auto
  from jump_loop_total [of 0 "n + 1" key "- 1"] assms
  obtain r' where r': "jump_loop key (- 1) 0 (n + 1) = Some r'" "0 \<le> r'" "r' < n + 1"
    by auto
  have g: "r' = r \<or> r' = n"
    using _ assms(2) r(1) r'(1) by (rule jump_loop_grow) simp
  have "int32 r = r" "int32 r' = r'"
    using r r' assms(2) by (simp_all add: int32_id)
  with r r' g show ?thesis
    by (simp add: jumpHash_def)
qed

lemma jumpHash_5: "jumpHash 0xDEAD10CC 5 = Some 1"
  by code_simp

lemma jumpHash_6: "jumpHash 0xDEAD10CC 6 = Some 5"
  by code_simp

theorem jumpHash_prefix_stable_witness:
  "(1::int) \<le> 5 \<and> (5::int) < 2 ^ 31
   \<and> jumpHash 0xDEAD10CC 5 = Some 1
   \<and> jumpHash 0xDEAD10CC (5 + 1) = Some 5"
  using jumpHash_prefix_stable [of 5 "0xDEAD10CC"] jumpHash_5 jumpHash_6 by simp

end
